theory Spec2Isabelle
  imports Main
begin

section \<open>Todd-Coxeter coset enumeration (toddcox.py)\<close>

text \<open>
  The module keeps a growable coset table (class \<open>Cosets\<close>), scans relator rows against it
  (class \<open>Row\<close>) and drives both from \<open>solve\<close>. Python exceptions are values of type
  \<open>error\<close>; a function that can raise returns \<open>error + 'a\<close> with \<open>Inl\<close> for the exception.
\<close>

subsection \<open>Exceptions and subscripts\<close>

text \<open>
  \<open>ValueError\<close> is raised by \<open>gens.index\<close>, \<open>AssertionError\<close> by \<open>assert\<close>. Python raises the one
  class \<open>IndexError\<close> for every failing subscript; the three constructors record which object
  was subscripted: a relator (\<open>self.rel[..]\<close>), the list of rows (\<open>rows[i]\<close>) or one of the two
  table arrays (\<open>self.cosets[..][..]\<close>, \<open>self.rcosets[..][..]\<close>).
\<close>

datatype error = ValueError | AssertionError | IndexError_rel | IndexError_rows | IndexError_table

text \<open>
  \<open>xs[i]\<close> for a Python int \<open>i\<close>: a negative index counts from the end; \<open>None\<close> stands for
  the IndexError.
\<close>

definition item :: "'a list \<Rightarrow> int \<Rightarrow> 'a option" where
  "item xs i =
     (if 0 \<le> i \<and> i < int (length xs) then Some (xs ! nat i)
      else if i < 0 \<and> - int (length xs) \<le> i then Some (xs ! nat (int (length xs) + i))
      else None)"

text \<open>
  \<open>gens.index(g)\<close> for a list (or tuple) \<open>gens\<close> is \<open>list.index\<close>: the first position of an
  element equal to \<open>g\<close>, ValueError when there is none.
\<close>

fun index :: "'a list \<Rightarrow> 'a \<Rightarrow> error + nat" where
  "index [] g = Inl ValueError"
| "index (x # xs) g =
     (if x = g then Inr 0
      else (case index xs g of Inl e \<Rightarrow> Inl e | Inr n \<Rightarrow> Inr (Suc n)))"

text \<open>
  \<open>gens.index(g)\<close> for a \<open>str\<close> \<open>gens\<close> is \<open>str.index\<close>, a search for a substring: the
  least \<open>i\<close> with \<open>gens[i:i + len(g)] == g\<close>, ValueError when there is none. The empty string
  is found at 0 in every string, the empty one too.
\<close>

fun str_index :: "string \<Rightarrow> string \<Rightarrow> error + nat" where
  "str_index [] sub = (if sub = [] then Inr 0 else Inl ValueError)"
| "str_index (c # s) sub =
     (if take (length sub) (c # s) = sub then Inr 0
      else (case str_index s sub of Inl e \<Rightarrow> Inl e | Inr n \<Rightarrow> Inr (Suc n)))"

text \<open>A list comprehension whose element expression can raise: the first exception wins.\<close>

fun comprehension :: "('a \<Rightarrow> error + 'b) \<Rightarrow> 'a list \<Rightarrow> error + 'b list" where
  "comprehension f [] = Inr []"
| "comprehension f (x # xs) =
     (case f x of Inl e \<Rightarrow> Inl e
      | Inr y \<Rightarrow> (case comprehension f xs of Inl e \<Rightarrow> Inl e | Inr ys \<Rightarrow> Inr (y # ys)))"

subsection \<open>class Cosets\<close>

text \<open>
  \<open>cosets\<close> is the forward array and \<open>rcosets\<close> the reverse array; an entry is \<open>None\<close> or a
  coset index. Coset and generator indices come from \<open>len\<close> and \<open>gens.index\<close> only, so they
  are naturals.
\<close>

record 'a Cosets =
  names :: "'a list"
  n_gens :: nat
  cosets :: "nat option list list"
  rcosets :: "nat option list list"

definition get :: "'a Cosets \<Rightarrow> nat \<Rightarrow> nat \<Rightarrow> error + nat option" where
  "get cs coset gen =
     (if coset < length (cosets cs) \<and> gen < length (cosets cs ! coset)
      then Inr (cosets cs ! coset ! gen)
      else Inl IndexError_table)"

definition rget :: "'a Cosets \<Rightarrow> nat \<Rightarrow> nat \<Rightarrow> error + nat option" where
  "rget cs gen target =
     (if target < length (rcosets cs) \<and> gen < length (rcosets cs ! target)
      then Inr (rcosets cs ! target ! gen)
      else Inl IndexError_table)"

text \<open>
  \<open>set\<close> writes the forward entry, then the reverse entry; either subscript can raise. No
  entry is read before it is overwritten.
\<close>

definition set_coset :: "'a Cosets \<Rightarrow> nat \<Rightarrow> nat \<Rightarrow> nat \<Rightarrow> error + 'a Cosets" where
  "set_coset cs coset gen target =
     (if coset < length (cosets cs) \<and> gen < length (cosets cs ! coset) then
        (let cs1 = cs\<lparr>cosets := (cosets cs)[coset := (cosets cs ! coset)[gen := Some target]]\<rparr>
         in if target < length (rcosets cs1) \<and> gen < length (rcosets cs1 ! target)
            then Inr (cs1\<lparr>rcosets :=
                   (rcosets cs1)[target := (rcosets cs1 ! target)[gen := Some coset]]\<rparr>)
            else Inl IndexError_table)
      else Inl IndexError_table)"

definition add_row :: "'a Cosets \<Rightarrow> 'a Cosets" where
  "add_row cs =
     cs\<lparr>cosets := cosets cs @ [replicate (n_gens cs) None],
        rcosets := rcosets cs @ [replicate (n_gens cs) None]\<rparr>"

definition Cosets_init :: "nat \<Rightarrow> 'a list \<Rightarrow> 'a Cosets" where
  "Cosets_init n nms = add_row \<lparr>names = nms, n_gens = n, cosets = [], rcosets = []\<rparr>"

text \<open>
  The two \<open>enumerate\<close> loops of \<open>add_coset\<close>: the first \<open>None\<close> of a row from position \<open>gen\<close>
  on, and the first row from position \<open>i\<close> on that has one.
\<close>

fun first_undefined :: "nat \<Rightarrow> nat option list \<Rightarrow> nat option" where
  "first_undefined gen [] = None"
| "first_undefined gen (target # row) =
     (if target = None then Some gen else first_undefined (Suc gen) row)"

fun first_open :: "nat \<Rightarrow> nat option list list \<Rightarrow> (nat \<times> nat) option" where
  "first_open i [] = None"
| "first_open i (coset # rest) =
     (case first_undefined 0 coset of
        Some gen \<Rightarrow> Some (i, gen)
      | None \<Rightarrow> first_open (Suc i) rest)"

definition add_coset :: "'a Cosets \<Rightarrow> error + ('a Cosets \<times> bool)" where
  "add_coset cs =
     (case first_open 0 (cosets cs) of
        Some (i, gen) \<Rightarrow>
          (let target = length (cosets cs)
           in (case set_coset (add_row cs) i gen target of
                 Inl e \<Rightarrow> Inl e
               | Inr cs' \<Rightarrow> Inr (cs', True)))
      | None \<Rightarrow> Inr (cs, False))"

subsection \<open>class Row\<close>

text \<open>
  \<open>left\<close> and \<open>right\<close> are Python ints (\<open>right\<close> is decremented), the two anchors are coset
  indices.
\<close>

record Row =
  rel :: "nat list"
  left :: int
  right :: int
  left_coset :: nat
  right_target :: nat

definition Row_init :: "nat list \<Rightarrow> nat \<Rightarrow> Row" where
  "Row_init r i =
     \<lparr>rel = r, left = 0, right = int (length r), left_coset = i, right_target = i\<rparr>"

definition left_gen :: "Row \<Rightarrow> nat option" where
  "left_gen r = item (rel r) (left r)"

definition right_gen :: "Row \<Rightarrow> nat option" where
  "right_gen r = item (rel r) (right r - 1)"

text \<open>The first \<open>while\<close> loop of \<open>learn\<close>; \<open>Inr r\<close> is the row when the loop is left.\<close>

function advance_left :: "Row \<Rightarrow> 'a Cosets \<Rightarrow> error + Row" where
  "advance_left r cs =
     (if left r + 1 \<noteq> right r then
        (case left_gen r of
           None \<Rightarrow> Inl IndexError_rel
         | Some g \<Rightarrow>
             (case get cs (left_coset r) g of
                Inl e \<Rightarrow> Inl e
              | Inr None \<Rightarrow> Inr r
              | Inr (Some left_target) \<Rightarrow>
                  advance_left (r\<lparr>left := left r + 1, left_coset := left_target\<rparr>) cs))
      else Inr r)"
  by pat_completeness auto
termination
  by (relation "measure (\<lambda>(r, cs). nat (int (length (rel r)) - left r))")
     (auto simp: left_gen_def item_def split: if_splits)

text \<open>The second \<open>while\<close> loop of \<open>learn\<close>.\<close>

function advance_right :: "Row \<Rightarrow> 'a Cosets \<Rightarrow> error + Row" where
  "advance_right r cs =
     (if left r + 1 \<noteq> right r then
        (case right_gen r of
           None \<Rightarrow> Inl IndexError_rel
         | Some g \<Rightarrow>
             (case rget cs g (right_target r) of
                Inl e \<Rightarrow> Inl e
              | Inr None \<Rightarrow> Inr r
              | Inr (Some right_coset) \<Rightarrow>
                  advance_right (r\<lparr>right := right r - 1, right_target := right_coset\<rparr>) cs))
      else Inr r)"
  by pat_completeness auto
termination
  by (relation "measure (\<lambda>(r, cs). nat (right r + int (length (rel r))))")
     (auto simp: right_gen_def item_def split: if_splits)

text \<open>
  \<open>learn\<close> returns the row as the loops left it, the table, and whether information was
  learned.
\<close>

definition learn :: "Row \<Rightarrow> 'a Cosets \<Rightarrow> error + (Row \<times> 'a Cosets \<times> bool)" where
  "learn r cs =
     (if left r + 1 = right r then Inr (r, cs, False)
      else
        (case advance_left r cs of
           Inl e \<Rightarrow> Inl e
         | Inr r1 \<Rightarrow>
             (case advance_right r1 cs of
                Inl e \<Rightarrow> Inl e
              | Inr r2 \<Rightarrow>
                  if left r2 + 1 = right r2 then
                    (case left_gen r2 of
                       None \<Rightarrow> Inl IndexError_rel
                     | Some g \<Rightarrow>
                         (case set_coset cs (left_coset r2) g (right_target r2) of
                            Inl e \<Rightarrow> Inl e
                          | Inr cs' \<Rightarrow> Inr (r2, cs', True)))
                  else Inr (r2, cs, False))))"

subsection \<open>solve\<close>

text \<open>
  \<open>solve\<close> is a machine over its program points, one step per call that \<open>solve\<close> makes on
  the table or on a row, so that the table is visible between any two calls (the loops
  inside \<open>learn\<close> and \<open>add_coset\<close> are the recursive functions above). The local variables
  are the arguments of the constructors: the relators as index lists, the pending rows and
  the table.
  \<^item> \<open>Subgens\<close>: in the loop \<open>for gen in subgens\<close> (lines 142 and 143), with the generators
    still to visit;
  \<^item> \<open>While_rows\<close>: at the test of \<open>while rows\<close> (line 145);
  \<^item> \<open>For_rows\<close>: in \<open>for i in reversed(range(len(rows)))\<close> (lines 148 to 151), with the
    flag \<open>learned\<close> and the indices still to visit; the range is computed once, when the loop
    is entered with \<open>learned = False\<close> (line 147);
  \<^item> \<open>Add_coset\<close>: after \<open>while True\<close> was left by \<open>break\<close>, at \<open>i = len(cosets)\<close> (lines 155
    to 159);
  \<^item> \<open>Returned\<close> and \<open>Raised\<close>: \<open>solve\<close> has returned the table or raised.
  \<open>learn\<close> changes the row in place, also when it answers False: the row is stored back.
\<close>

datatype 'a config =
    Subgens "nat list list" "Row list" "'a Cosets" "nat list"
  | While_rows "nat list list" "Row list" "'a Cosets"
  | For_rows "nat list list" "Row list" "'a Cosets" bool "nat list"
  | Add_coset "nat list list" "Row list" "'a Cosets"
  | Returned "'a Cosets"
  | Raised error

text \<open>\<open>del rows[i]\<close>\<close>

definition del :: "'b list \<Rightarrow> nat \<Rightarrow> 'b list" where
  "del xs i = take i xs @ drop (Suc i) xs"

fun step :: "'a config \<Rightarrow> 'a config" where
  "step (Subgens rels rows cs []) = While_rows rels rows cs"
| "step (Subgens rels rows cs (gen # gens)) =
     (case set_coset cs 0 gen 0 of
        Inl e \<Rightarrow> Raised e
      | Inr cs' \<Rightarrow> Subgens rels rows cs' gens)"
| "step (While_rows rels rows cs) =
     (if rows \<noteq> [] then For_rows rels rows cs False (rev [0..<length rows])
      else Returned cs)"
| "step (For_rows rels rows cs learned (i # is)) =
     (if i < length rows then
        (case learn (rows ! i) cs of
           Inl e \<Rightarrow> Raised e
         | Inr (r, cs', True) \<Rightarrow> For_rows rels (del (rows[i := r]) i) cs' True is
         | Inr (r, cs', False) \<Rightarrow> For_rows rels (rows[i := r]) cs' learned is)
      else Raised IndexError_rows)"
| "step (For_rows rels rows cs learned []) =
     (if \<not> learned then Add_coset rels rows cs
      else For_rows rels rows cs False (rev [0..<length rows]))"
| "step (Add_coset rels rows cs) =
     (let i = length (cosets cs)
      in (case add_coset cs of
            Inl e \<Rightarrow> Raised e
          | Inr (cs', True) \<Rightarrow> While_rows rels (rows @ map (\<lambda>rel. Row_init rel i) rels) cs'
          | Inr (cs', False) \<Rightarrow> Returned cs'))"
| "step (Returned cs) = Returned cs"
| "step (Raised e) = Raised e"

fun outcome :: "'a config \<Rightarrow> (error + 'a Cosets) option" where
  "outcome (Returned cs) = Some (Inr cs)"
| "outcome (Raised e) = Some (Inl e)"
| "outcome _ = None"

text \<open>Running the machine to its end; \<open>None\<close> is a run that never ends.\<close>

partial_function (option) run :: "'a config \<Rightarrow> (error + 'a Cosets) option" where
  "run c = (case outcome c of Some res \<Rightarrow> Some res | None \<Rightarrow> run (step c))"

declare run.simps [code]

text \<open>
  Lines 135 to 140 of \<open>solve\<close>: the symbols become indices (relators first), then the table
  and one row per relator at coset 0 are made. \<open>solve_start\<close> and \<open>solve\<close> are \<open>solve\<close> for an
  alphabet given as a list of symbols.
\<close>

definition solve_start :: "'a list \<Rightarrow> 'a list \<Rightarrow> 'a list list \<Rightarrow> error + 'a config" where
  "solve_start gens subgens rels =
     (case comprehension (comprehension (index gens)) rels of
        Inl e \<Rightarrow> Inl e
      | Inr rels' \<Rightarrow>
          (case comprehension (index gens) subgens of
             Inl e \<Rightarrow> Inl e
           | Inr subgens' \<Rightarrow>
               Inr (Subgens rels' (map (\<lambda>rel. Row_init rel 0) rels')
                      (Cosets_init (length gens) gens) subgens')))"

definition solve :: "'a list \<Rightarrow> 'a list \<Rightarrow> 'a list list \<Rightarrow> (error + 'a Cosets) option" where
  "solve gens subgens rels =
     (case solve_start gens subgens rels of
        Inl e \<Rightarrow> Some (Inl e)
      | Inr c \<Rightarrow> run c)"

text \<open>
  The same lines for an alphabet given as one \<open>str\<close>, the form of \<open>main\<close> and of the
  docstrings: \<open>gens.index\<close> is then \<open>str.index\<close>, \<open>len(gens)\<close> the number of characters and
  \<open>names\<close> the string itself. The symbols of \<open>subgens\<close> and of a relator are strings of any
  length (the elements of a list or tuple; a \<open>str\<close> in their place yields its characters,
  \<open>chars\<close> below). From \<open>Subgens\<close> on the machine is the one above.
\<close>

definition solve_start_str ::
  "string \<Rightarrow> string list \<Rightarrow> string list list \<Rightarrow> error + char config" where
  "solve_start_str gens subgens rels =
     (case comprehension (comprehension (str_index gens)) rels of
        Inl e \<Rightarrow> Inl e
      | Inr rels' \<Rightarrow>
          (case comprehension (str_index gens) subgens of
             Inl e \<Rightarrow> Inl e
           | Inr subgens' \<Rightarrow>
               Inr (Subgens rels' (map (\<lambda>rel. Row_init rel 0) rels')
                      (Cosets_init (length gens) gens) subgens')))"

definition solve_str ::
  "string \<Rightarrow> string list \<Rightarrow> string list list \<Rightarrow> (error + char Cosets) option" where
  "solve_str gens subgens rels =
     (case solve_start_str gens subgens rels of
        Inl e \<Rightarrow> Some (Inl e)
      | Inr c \<Rightarrow> run c)"

subsection \<open>coxeter and schlafli\<close>

text \<open>
  A symbol is a Python \<open>str\<close> and a relator word is a \<open>str\<close> too; iterating a word gives its
  one-character strings. The list \<open>rels\<close> stands for the tuple that \<open>coxeter\<close> asserts its
  third argument to be. \<open>coxeter\<close> and \<open>schlafli\<close> take the alphabet as a list of symbols;
  \<open>coxeter_str\<close> and \<open>schlafli_str\<close> at the end of the section take it as one \<open>str\<close>.
\<close>

definition chars :: "string \<Rightarrow> string list" where
  "chars w = map (\<lambda>c. [c]) w"

text \<open>\<open>itertools.permutations(gens, r=2)\<close>: the pairs of elements at two different positions.\<close>

definition permutations2 :: "'b list \<Rightarrow> ('b \<times> 'b) list" where
  "permutations2 xs =
     concat (map (\<lambda>i. map (\<lambda>j. (xs ! i, xs ! j)) (filter (\<lambda>j. j \<noteq> i) [0..<length xs]))
                 [0..<length xs])"

definition missing_links :: "string list \<Rightarrow> string list \<Rightarrow> string set set" where
  "missing_links gens rels =
     (let inc_links = set (map (\<lambda>rel. set (chars rel)) rels);
          all_links = set (map (\<lambda>(g, h). {g, h}) (permutations2 gens))
      in all_links - inc_links)"

text \<open>
  The order in which Python iterates a set depends on the hashes of its elements, which
  for strings change from one interpreter run to the next. \<open>coxeter\<close> iterates the set
  \<open>missing_links\<close> and, in \<open>''.join(link)\<close>, each of its elements; the two orders are the
  parameters \<open>links_order\<close> and \<open>link_order\<close>. Python promises of them only that every
  element is visited once: \<open>iterates\<close>.
\<close>

definition iterates :: "('b set \<Rightarrow> 'b list) \<Rightarrow> 'b set \<Rightarrow> bool" where
  "iterates order S \<longleftrightarrow> set (order S) = S \<and> distinct (order S)"

definition coxeter_rels ::
  "(string set set \<Rightarrow> string set list) \<Rightarrow> (string set \<Rightarrow> string list) \<Rightarrow>
   string list \<Rightarrow> string list \<Rightarrow> string list" where
  "coxeter_rels links_order link_order gens rels =
     (let rels1 = rels @ map (\<lambda>link. concat (link_order link) @ concat (link_order link))
                             (links_order (missing_links gens rels));
          rels2 = rels1 @ map (\<lambda>gen. gen @ gen) gens
      in rels2)"

definition coxeter ::
  "(string set set \<Rightarrow> string set list) \<Rightarrow> (string set \<Rightarrow> string list) \<Rightarrow>
   string list \<Rightarrow> string list \<Rightarrow> string list \<Rightarrow> (error + string Cosets) option" where
  "coxeter links_order link_order gens subgens rels =
     solve gens subgens (map chars (coxeter_rels links_order link_order gens rels))"

text \<open>\<open>pairwise\<close> of the module: \<open>s -> (s0,s1), (s1,s2), ...\<close>\<close>

definition pairwise_py :: "'b list \<Rightarrow> ('b \<times> 'b) list" where
  "pairwise_py s = zip s (tl s)"

text \<open>
  The third argument of \<open>schlafli\<close> holds the coefficients; \<open>str * n\<close> is the empty string for
  \<open>n \<le> 0\<close>. The \<open>assert\<close> is live, as it is unless Python runs with \<open>-O\<close>.
\<close>

definition schlafli ::
  "(string set set \<Rightarrow> string set list) \<Rightarrow> (string set \<Rightarrow> string list) \<Rightarrow>
   string list \<Rightarrow> string list \<Rightarrow> int list \<Rightarrow> (error + string Cosets) option" where
  "schlafli links_order link_order gens subgens rels =
     (if length gens = length rels + 1 then
        (let cox_rels = map (\<lambda>((x, y), coeff). concat (replicate (nat coeff) (x @ y)))
                            (zip (pairwise_py gens) rels)
         in coxeter links_order link_order gens subgens cox_rels)
      else Some (Inl AssertionError))"

text \<open>
  \<open>coxeter\<close> and \<open>schlafli\<close> for an alphabet given as one \<open>str\<close>: \<open>permutations\<close>, \<open>pairwise\<close>
  and \<open>for gen in gens\<close> iterate its characters, \<open>len\<close> counts them, and the string itself
  goes to \<open>solve\<close>.
\<close>

definition coxeter_str ::
  "(string set set \<Rightarrow> string set list) \<Rightarrow> (string set \<Rightarrow> string list) \<Rightarrow>
   string \<Rightarrow> string list \<Rightarrow> string list \<Rightarrow> (error + char Cosets) option" where
  "coxeter_str links_order link_order gens subgens rels =
     solve_str gens subgens (map chars (coxeter_rels links_order link_order (chars gens) rels))"

definition schlafli_str ::
  "(string set set \<Rightarrow> string set list) \<Rightarrow> (string set \<Rightarrow> string list) \<Rightarrow>
   string \<Rightarrow> string list \<Rightarrow> int list \<Rightarrow> (error + char Cosets) option" where
  "schlafli_str links_order link_order gens subgens rels =
     (if length gens = length rels + 1 then
        (let cox_rels = map (\<lambda>((x, y), coeff). concat (replicate (nat coeff) (x @ y)))
                            (zip (pairwise_py (chars gens)) rels)
         in coxeter_str links_order link_order gens subgens cox_rels)
      else Some (Inl AssertionError))"

section \<open>Invariants of the table and of a run\<close>

text \<open>
  The table is well-formed (\<open>table_inv\<close>) when both arrays have one row per coset, every
  row has one entry per generator and every defined entry is the index of a coset. A row
  fits the table (\<open>row_inv\<close>) when its relator holds generator indices and its two anchors
  are cosets. \<open>config_inv\<close> is what every program point of \<open>solve\<close> keeps; the only
  exception left to a run is the IndexError of \<open>self.rel[0]\<close> on an empty relator.
  \<open>table_of\<close> is the table at a program point.
\<close>

definition entry_ok :: "nat \<Rightarrow> nat option \<Rightarrow> bool" where
  "entry_ok k e = (case e of None \<Rightarrow> True | Some t \<Rightarrow> t < k)"

definition array_inv :: "nat \<Rightarrow> nat \<Rightarrow> nat option list list \<Rightarrow> bool" where
  "array_inv n k arr \<longleftrightarrow>
     length arr = k \<and> (\<forall>row \<in> set arr. length row = n \<and> (\<forall>e \<in> set row. entry_ok k e))"

definition table_inv :: "'a Cosets \<Rightarrow> bool" where
  "table_inv cs \<longleftrightarrow>
     array_inv (n_gens cs) (length (cosets cs)) (cosets cs) \<and>
     array_inv (n_gens cs) (length (cosets cs)) (rcosets cs)"

definition row_inv :: "'a Cosets \<Rightarrow> Row \<Rightarrow> bool" where
  "row_inv cs r \<longleftrightarrow>
     (\<forall>g \<in> set (rel r). g < n_gens cs) \<and>
     left_coset r < length (cosets cs) \<and> right_target r < length (cosets cs)"

definition frame_inv :: "nat list list \<Rightarrow> Row list \<Rightarrow> 'a Cosets \<Rightarrow> bool" where
  "frame_inv rels rows cs \<longleftrightarrow>
     table_inv cs \<and> 0 < length (cosets cs) \<and>
     (\<forall>rel \<in> set rels. \<forall>g \<in> set rel. g < n_gens cs) \<and>
     (\<forall>r \<in> set rows. row_inv cs r)"

fun config_inv :: "'a config \<Rightarrow> bool" where
  "config_inv (Subgens rels rows cs gens) =
     (frame_inv rels rows cs \<and> (\<forall>g \<in> set gens. g < n_gens cs))"
| "config_inv (While_rows rels rows cs) = frame_inv rels rows cs"
| "config_inv (For_rows rels rows cs learned is) =
     (frame_inv rels rows cs \<and> length is \<le> length rows \<and> is = rev [0..<length is])"
| "config_inv (Add_coset rels rows cs) = frame_inv rels rows cs"
| "config_inv (Returned cs) = table_inv cs"
| "config_inv (Raised e) = (e = IndexError_rel)"

fun table_of :: "'a config \<Rightarrow> 'a Cosets option" where
  "table_of (Subgens rels rows cs gens) = Some cs"
| "table_of (While_rows rels rows cs) = Some cs"
| "table_of (For_rows rels rows cs learned is) = Some cs"
| "table_of (Add_coset rels rows cs) = Some cs"
| "table_of (Returned cs) = Some cs"
| "table_of (Raised e) = None"

text \<open>
  A table is saturated when every forward entry is defined. \<open>pending_inv\<close> is what a run
  with at least one relator keeps: the list of rows is not empty when \<open>while rows\<close> tests
  it, so that \<open>solve\<close> returns from \<open>add_coset\<close> only.
\<close>

fun is_defined :: "error + nat option \<Rightarrow> bool" where
  "is_defined (Inr (Some t)) = True"
| "is_defined _ = False"

definition saturated :: "'a Cosets \<Rightarrow> bool" where
  "saturated cs \<longleftrightarrow>
     (\<forall>c \<in> {0..<length (cosets cs)}. \<forall>g \<in> {0..<n_gens cs}. is_defined (get cs c g))"

fun pending_inv :: "'a config \<Rightarrow> bool" where
  "pending_inv (Subgens rels rows cs gens) = (rels \<noteq> [] \<and> rows \<noteq> [])"
| "pending_inv (While_rows rels rows cs) = (rels \<noteq> [] \<and> rows \<noteq> [])"
| "pending_inv (For_rows rels rows cs learned is) = (rels \<noteq> [])"
| "pending_inv (Add_coset rels rows cs) = (rels \<noteq> [])"
| "pending_inv (Returned cs) = saturated cs"
| "pending_inv (Raised e) = True"

text \<open>
  What \<open>learn\<close> is to do, in terms of the table alone. \<open>follow\<close> applies a word to a coset
  by forward lookups, \<open>follow_back\<close> by reverse lookups (the word is given last generator
  first); both are \<open>None\<close> when a lookup is undefined or out of range.
  \<open>slice w i j\<close> is \<open>w[i:j]\<close> for \<open>0 \<le> i \<le> j \<le> len(w)\<close>. A row's window is in order when
  \<open>0 \<le> left < right \<le> len(rel)\<close>, as it is for \<open>Row(rel, i)\<close> with a non-empty relator.
\<close>

fun follow :: "'a Cosets \<Rightarrow> nat \<Rightarrow> nat list \<Rightarrow> nat option" where
  "follow cs c [] = Some c"
| "follow cs c (g # gs) =
     (case get cs c g of Inr (Some t) \<Rightarrow> follow cs t gs | _ \<Rightarrow> None)"

fun follow_back :: "'a Cosets \<Rightarrow> nat \<Rightarrow> nat list \<Rightarrow> nat option" where
  "follow_back cs t [] = Some t"
| "follow_back cs t (g # gs) =
     (case rget cs g t of Inr (Some c) \<Rightarrow> follow_back cs c gs | _ \<Rightarrow> None)"

definition slice :: "'b list \<Rightarrow> int \<Rightarrow> int \<Rightarrow> 'b list" where
  "slice w i j = map (\<lambda>k. w ! k) [nat i..<nat j]"

definition window_ok :: "Row \<Rightarrow> bool" where
  "window_ok r \<longleftrightarrow> 0 \<le> left r \<and> left r < right r \<and> right r \<le> int (length (rel r))"

text \<open>
  The calls of \<open>set\<close> in a run. \<open>learn_set r cs\<close> is the call \<open>learn\<close> makes on row \<open>r\<close> (its
  arguments), if it makes one; \<open>next_set c\<close> is the call that the next step of \<open>solve\<close> makes
  from \<open>c\<close>, with the table it is made on (in \<open>add_coset\<close>, the table after \<open>add_row\<close>). A
  step makes at most one call.
\<close>

definition learn_set :: "Row \<Rightarrow> 'a Cosets \<Rightarrow> (nat \<times> nat \<times> nat) option" where
  "learn_set r cs =
     (if left r + 1 = right r then None
      else
        (case advance_left r cs of
           Inl e \<Rightarrow> None
         | Inr r1 \<Rightarrow>
             (case advance_right r1 cs of
                Inl e \<Rightarrow> None
              | Inr r2 \<Rightarrow>
                  if left r2 + 1 = right r2 then
                    (case left_gen r2 of
                       None \<Rightarrow> None
                     | Some g \<Rightarrow> Some (left_coset r2, g, right_target r2))
                  else None)))"

fun next_set :: "'a config \<Rightarrow> ('a Cosets \<times> nat \<times> nat \<times> nat) option" where
  "next_set (Subgens rels rows cs (gen # gens)) = Some (cs, 0, gen, 0)"
| "next_set (For_rows rels rows cs learned (i # is)) =
     (if i < length rows then
        (case learn_set (rows ! i) cs of
           Some (coset, gen, target) \<Rightarrow> Some (cs, coset, gen, target)
         | None \<Rightarrow> None)
      else None)"
| "next_set (Add_coset rels rows cs) =
     (case first_open 0 (cosets cs) of
        Some (i, gen) \<Rightarrow> Some (add_row cs, i, gen, length (cosets cs))
      | None \<Rightarrow> None)"
| "next_set _ = None"

text \<open>
  \<open>set(coset, gen, target)\<close> overwrites the forward (reverse) array when the entry it
  writes is defined and holds another coset. A run is \<open>forward_safe\<close> (\<open>reverse_safe\<close>)
  for \<open>n\<close> steps when none of its first \<open>n\<close> steps makes such a call.
\<close>

definition overwrites_forward :: "'a Cosets \<Rightarrow> nat \<Rightarrow> nat \<Rightarrow> nat \<Rightarrow> bool" where
  "overwrites_forward cs coset gen target =
     (case get cs coset gen of Inr (Some t) \<Rightarrow> t \<noteq> target | _ \<Rightarrow> False)"

definition overwrites_reverse :: "'a Cosets \<Rightarrow> nat \<Rightarrow> nat \<Rightarrow> nat \<Rightarrow> bool" where
  "overwrites_reverse cs coset gen target =
     (case rget cs gen target of Inr (Some c) \<Rightarrow> c \<noteq> coset | _ \<Rightarrow> False)"

definition reverse_conflict :: "'a config \<Rightarrow> bool" where
  "reverse_conflict c =
     (case next_set c of
        Some (cs, coset, gen, target) \<Rightarrow> overwrites_reverse cs coset gen target
      | None \<Rightarrow> False)"

definition forward_conflict :: "'a config \<Rightarrow> bool" where
  "forward_conflict c =
     (case next_set c of
        Some (cs, coset, gen, target) \<Rightarrow> overwrites_forward cs coset gen target
      | None \<Rightarrow> False)"

fun reverse_safe :: "nat \<Rightarrow> 'a config \<Rightarrow> bool" where
  "reverse_safe 0 c = True"
| "reverse_safe (Suc n) c = (\<not> reverse_conflict c \<and> reverse_safe n (step c))"

fun forward_safe :: "nat \<Rightarrow> 'a config \<Rightarrow> bool" where
  "forward_safe 0 c = True"
| "forward_safe (Suc n) c = (\<not> forward_conflict c \<and> forward_safe n (step c))"

text \<open>
  The table is symmetric when every defined forward entry \<open>forward[c][g] = t\<close> has its
  reverse entry \<open>reverse[t][g] = c\<close>. A coset is reachable when some word leads to it from
  coset 0 by forward lookups.
\<close>

definition symmetric :: "'a Cosets \<Rightarrow> bool" where
  "symmetric cs \<longleftrightarrow>
     (\<forall>c \<in> {0..<length (cosets cs)}. \<forall>g \<in> {0..<n_gens cs}.
        (case get cs c g of Inr (Some t) \<Rightarrow> rget cs g t = Inr (Some c) | _ \<Rightarrow> True))"

definition reachable :: "'a Cosets \<Rightarrow> nat \<Rightarrow> bool" where
  "reachable cs c \<longleftrightarrow> (\<exists>w. follow cs 0 w = Some c)"

definition all_reachable :: "'a Cosets \<Rightarrow> bool" where
  "all_reachable cs \<longleftrightarrow> (\<forall>c \<in> {0..<length (cosets cs)}. reachable cs c)"

text \<open>
  The relators of \<open>coxeter\<close> in the words of the specification. A pair of generators is
  given a relator when some relator has exactly these two letters; a generator is already
  paired when it is in such a pair. \<open>coxeter_spec\<close> is the specification's \<open>coxeter\<close>: the
  given relators, a commuting relator for every unordered pair of generators that has
  none, and \<open>gg\<close> for every generator that is not already paired.
\<close>

definition given :: "string list \<Rightarrow> string \<Rightarrow> string \<Rightarrow> bool" where
  "given rels g h \<longleftrightarrow> (\<exists>r \<in> set rels. set (chars r) = {g, h})"

definition unpaired :: "string list \<Rightarrow> string list \<Rightarrow> string set set" where
  "unpaired gens rels =
     {{g, h} | g h. g \<in> set gens \<and> h \<in> set gens \<and> g \<noteq> h \<and> \<not> given rels g h}"

definition already_paired :: "string list \<Rightarrow> string list \<Rightarrow> string \<Rightarrow> bool" where
  "already_paired gens rels g \<longleftrightarrow> (\<exists>h \<in> set gens. h \<noteq> g \<and> given rels g h)"

definition coxeter_spec_rels ::
  "(string set set \<Rightarrow> string set list) \<Rightarrow> (string set \<Rightarrow> string list) \<Rightarrow>
   string list \<Rightarrow> string list \<Rightarrow> string list" where
  "coxeter_spec_rels links_order link_order gens rels =
     rels
     @ map (\<lambda>link. concat (link_order link) @ concat (link_order link))
           (links_order (unpaired gens rels))
     @ map (\<lambda>g. g @ g) (filter (\<lambda>g. \<not> already_paired gens rels g) gens)"

definition coxeter_spec ::
  "(string set set \<Rightarrow> string set list) \<Rightarrow> (string set \<Rightarrow> string list) \<Rightarrow>
   string list \<Rightarrow> string list \<Rightarrow> string list \<Rightarrow> (error + string Cosets) option" where
  "coxeter_spec links_order link_order gens subgens rels =
     solve gens subgens (map chars (coxeter_spec_rels links_order link_order gens rels))"

text \<open>The two generators of a link, in the order \<open>''.join(link)\<close> visits them.\<close>

definition link_as_pair :: "(string set \<Rightarrow> string list) \<Rightarrow> string set \<Rightarrow> string \<times> string" where
  "link_as_pair link_order l = (link_order l ! 0, link_order l ! 1)"

subsection \<open>Representative words\<close>

text \<open>
  Modelled from the spec: the words of the cosets (\<open>cosets.words\<close> in \<open>make_all\<close> of
  sample.py) are no attribute of the class \<open>Cosets\<close> in toddcox.py. Section 4.3 of the
  specification has them made by a breadth-first traversal of the table from coset 0: a
  coset visited for the first time takes the word of the coset it was reached from with
  the generator of the edge appended. \<open>visit\<close> looks at one edge \<open>(c, g)\<close> of the coset
  \<open>c\<close> whose word is \<open>w\<close>; the state is the list of words found so far, one slot per
  coset, and the queue.
\<close>

definition visit ::
  "'a Cosets \<Rightarrow> nat \<Rightarrow> nat list \<Rightarrow> nat \<Rightarrow> nat list option list \<times> nat list \<Rightarrow>
   nat list option list \<times> nat list" where
  "visit cs c w g st =
     (case st of (ws, queue) \<Rightarrow>
        (case get cs c g of
           Inr (Some t) \<Rightarrow>
             if t < length ws \<and> ws ! t = None then (ws[t := Some (w @ [g])], queue @ [t])
             else (ws, queue)
         | _ \<Rightarrow> (ws, queue)))"

text \<open>
  Modelled from the spec: the edges of the dequeued coset, taken in the order of the
  generators.
\<close>

definition expand ::
  "'a Cosets \<Rightarrow> nat \<Rightarrow> nat list \<Rightarrow> nat list option list \<Rightarrow> nat list \<Rightarrow>
   nat list option list \<times> nat list" where
  "expand cs c w ws queue = fold (visit cs c w) [0..<n_gens cs] (ws, queue)"

text \<open>The number of cosets without a word, which bounds the traversal.\<close>

definition unvisited :: "nat list option list \<Rightarrow> nat" where
  "unvisited ws = length (filter (\<lambda>e. e = None) ws)"

lemma unvisited_update:
  "t < length ws \<Longrightarrow> ws ! t = None \<Longrightarrow> unvisited (ws[t := Some w]) < unvisited ws"
proof (induction ws arbitrary: t)
  case Nil
  then show ?case by simp
next
  case (Cons e ws)
  show ?case
  proof (cases t)
    case 0
    then show ?thesis using Cons.prems by (simp add: unvisited_def)
  next
    case (Suc t')
    then have "unvisited (ws[t' := Some w]) < unvisited ws"
      using Cons.prems by (intro Cons.IH) auto
    then show ?thesis using Suc by (simp add: unvisited_def)
  qed
qed

lemma visit_measure:
  "visit cs c w g (ws, queue) = (ws', queue') \<Longrightarrow>
     unvisited ws' < unvisited ws \<or> (ws' = ws \<and> queue' = queue)"
  by (auto simp: visit_def unvisited_update split: sum.splits option.splits if_splits)

lemma fold_visit_measure:
  "fold (visit cs c w) gs (ws, queue) = (ws', queue') \<Longrightarrow>
     unvisited ws' < unvisited ws \<or> (ws' = ws \<and> queue' = queue)"
proof (induction gs arbitrary: ws queue)
  case Nil
  then show ?case by simp
next
  case (Cons g gs)
  obtain ws1 q1 where v: "visit cs c w g (ws, queue) = (ws1, q1)"
    by (cases "visit cs c w g (ws, queue)")
  then have "fold (visit cs c w) gs (ws1, q1) = (ws', queue')" using Cons.prems by simp
  from Cons.IH [OF this] visit_measure [OF v] show ?case by auto
qed

lemma expand_measure:
  "expand cs c w ws queue = (ws', queue') \<Longrightarrow>
     unvisited ws' < unvisited ws \<or> (ws' = ws \<and> queue' = queue)"
  unfolding expand_def by (rule fold_visit_measure)

text \<open>
  Modelled from the spec: the breadth-first traversal, taking the first coset of the queue
  until the queue is empty.
\<close>

function bfs :: "'a Cosets \<Rightarrow> nat list option list \<Rightarrow> nat list \<Rightarrow> nat list option list" where
  "bfs cs ws [] = ws"
| "bfs cs ws (c # queue) =
     (case (if c < length ws then ws ! c else None) of
        None \<Rightarrow> bfs cs ws queue
      | Some w \<Rightarrow> bfs cs (fst (expand cs c w ws queue)) (snd (expand cs c w ws queue)))"
  by pat_completeness auto
termination
proof (relation "measures [\<lambda>(cs, ws, queue). unvisited ws, \<lambda>(cs, ws, queue). length queue]")
  show "wf (measures [\<lambda>(cs, ws, queue). unvisited ws, \<lambda>(cs, ws, queue). length queue])"
    by simp
next
  fix cs :: "'a Cosets" and ws c queue
  show "((cs, ws, queue), cs, ws, c # queue)
          \<in> measures [\<lambda>(cs, ws, queue). unvisited ws, \<lambda>(cs, ws, queue). length queue]"
    by simp
next
  fix cs :: "'a Cosets" and ws c queue w
  obtain ws' q' where e: "expand cs c w ws queue = (ws', q')"
    by (cases "expand cs c w ws queue")
  from expand_measure [OF e]
  show "((cs, fst (expand cs c w ws queue), snd (expand cs c w ws queue)), cs, ws, c # queue)
          \<in> measures [\<lambda>(cs, ws, queue). unvisited ws, \<lambda>(cs, ws, queue). length queue]"
    using e by auto
qed

text \<open>
  Modelled from the spec: the words of a table: the traversal from coset 0, whose word is
  empty. A coset that the traversal does not reach has no word (\<open>None\<close>).
\<close>

definition words :: "'a Cosets \<Rightarrow> nat list option list" where
  "words cs = bfs cs ((replicate (length (cosets cs)) None)[0 := Some []]) [0]"

text \<open>
  For the proofs about the traversal: a coset is seen when it has a word; the words are
  sound when each replays to its coset; \<open>frontier\<close> says that the queue holds seen cosets
  and that every edge of a seen coset outside the queue leads to a seen coset.
\<close>

definition seen :: "nat list option list \<Rightarrow> nat \<Rightarrow> bool" where
  "seen ws x \<longleftrightarrow> x < length ws \<and> ws ! x \<noteq> None"

definition sound :: "'a Cosets \<Rightarrow> nat list option list \<Rightarrow> bool" where
  "sound cs ws \<longleftrightarrow> (\<forall>c w. c < length ws \<and> ws ! c = Some w \<longrightarrow> follow cs 0 w = Some c)"

definition frontier :: "'a Cosets \<Rightarrow> nat list option list \<Rightarrow> nat list \<Rightarrow> bool" where
  "frontier cs ws queue \<longleftrightarrow>
     (\<forall>x \<in> set queue. seen ws x) \<and>
     (\<forall>x g t. seen ws x \<and> x \<notin> set queue \<and> get cs x g = Inr (Some t) \<and> t < length ws
        \<longrightarrow> seen ws t)"

subsection \<open>Symbols of a string alphabet\<close>

text \<open>\<open>sub in s\<close> for two strings: \<open>sub\<close> is a contiguous part of \<open>s\<close>.\<close>

definition occurs :: "string \<Rightarrow> string \<Rightarrow> bool" where
  "occurs sub s \<longleftrightarrow> (\<exists>pre post. s = pre @ sub @ post)"

text \<open>
  The attribute \<open>names\<close> is stored by \<open>Cosets.__init__\<close> and read by \<open>__str__\<close> only. \<open>rename\<close>
  replaces it, in a table and in a configuration of \<open>solve\<close>.
\<close>

definition rename :: "'b list \<Rightarrow> 'a Cosets \<Rightarrow> 'b Cosets" where
  "rename nms cs = \<lparr>names = nms, n_gens = n_gens cs, cosets = cosets cs, rcosets = rcosets cs\<rparr>"

fun rename_config :: "'b list \<Rightarrow> 'a config \<Rightarrow> 'b config" where
  "rename_config nms (Subgens rels rows cs gens) = Subgens rels rows (rename nms cs) gens"
| "rename_config nms (While_rows rels rows cs) = While_rows rels rows (rename nms cs)"
| "rename_config nms (For_rows rels rows cs learned is) =
     For_rows rels rows (rename nms cs) learned is"
| "rename_config nms (Add_coset rels rows cs) = Add_coset rels rows (rename nms cs)"
| "rename_config nms (Returned cs) = Returned (rename nms cs)"
| "rename_config nms (Raised e) = Raised e"

section \<open>Properties\<close>

subsection \<open>The table stays well-formed\<close>

lemma entry_ok_mono: "entry_ok k e \<Longrightarrow> k \<le> k' \<Longrightarrow> entry_ok k' e"
  by (auto simp: entry_ok_def split: option.splits)

lemma array_inv_nth:
  "array_inv n k arr \<Longrightarrow> c < k \<Longrightarrow> length (arr ! c) = n"
  by (auto simp: array_inv_def)

lemma array_inv_entry:
  "array_inv n k arr \<Longrightarrow> c < k \<Longrightarrow> g < n \<Longrightarrow> arr ! c ! g = Some t \<Longrightarrow> t < k"
  unfolding array_inv_def entry_ok_def
  by (metis nth_mem option.simps(5))

lemma array_inv_update:
  assumes "array_inv n k arr" "t < k"
  shows "array_inv n k (arr[c := (arr ! c)[g := Some t]])"
proof -
  have "\<And>row. row \<in> set (arr[c := (arr ! c)[g := Some t]]) \<Longrightarrow>
          length row = n \<and> (\<forall>e \<in> set row. entry_ok k e)"
  proof -
    fix row assume "row \<in> set (arr[c := (arr ! c)[g := Some t]])"
    then have "row \<in> set arr \<or> row = (arr ! c)[g := Some t] \<and> c < length arr"
      by (metis in_set_conv_nth length_list_update nth_list_update_eq nth_list_update_neq)
    then show "length row = n \<and> (\<forall>e \<in> set row. entry_ok k e)"
    proof
      assume "row \<in> set arr" then show ?thesis using assms by (auto simp: array_inv_def)
    next
      assume h: "row = (arr ! c)[g := Some t] \<and> c < length arr"
      then have "arr ! c \<in> set arr" by simp
      then have "length (arr ! c) = n" "\<forall>e \<in> set (arr ! c). entry_ok k e"
        using assms by (auto simp: array_inv_def)
      moreover have "set ((arr ! c)[g := Some t]) \<subseteq> insert (Some t) (set (arr ! c))"
        by (rule set_update_subset_insert)
      ultimately show ?thesis using h assms(2) by (auto simp: entry_ok_def)
    qed
  qed
  then show ?thesis using assms by (simp add: array_inv_def)
qed

lemma array_inv_append:
  assumes "array_inv n k arr"
  shows "array_inv n (Suc k) (arr @ [replicate n None])"
  using assms by (fastforce simp: array_inv_def entry_ok_def split: option.splits)

lemma table_inv_Cosets_init: "table_inv (Cosets_init n nms)"
  by (simp add: table_inv_def Cosets_init_def add_row_def array_inv_def entry_ok_def)

lemma table_inv_add_row: "table_inv cs \<Longrightarrow> table_inv (add_row cs)"
  by (simp add: table_inv_def add_row_def array_inv_append)

lemma table_inv_lengths:
  "table_inv cs \<Longrightarrow> length (rcosets cs) = length (cosets cs)"
  "table_inv cs \<Longrightarrow> c < length (cosets cs) \<Longrightarrow> length (cosets cs ! c) = n_gens cs"
  "table_inv cs \<Longrightarrow> c < length (cosets cs) \<Longrightarrow> length (rcosets cs ! c) = n_gens cs"
  by (auto simp: table_inv_def array_inv_def)

lemma set_coset_inv:
  assumes "table_inv cs" "c < length (cosets cs)" "g < n_gens cs" "t < length (cosets cs)"
  shows "\<exists>cs'. set_coset cs c g t = Inr cs' \<and> table_inv cs'
           \<and> length (cosets cs') = length (cosets cs) \<and> n_gens cs' = n_gens cs"
proof -
  let ?f = "(cosets cs)[c := (cosets cs ! c)[g := Some t]]"
  let ?r = "(rcosets cs)[t := (rcosets cs ! t)[g := Some c]]"
  have eq: "set_coset cs c g t = Inr (cs\<lparr>cosets := ?f, rcosets := ?r\<rparr>)"
    using assms by (simp add: set_coset_def table_inv_lengths Let_def)
  have "array_inv (n_gens cs) (length (cosets cs)) ?f"
    using assms by (simp add: table_inv_def array_inv_update)
  moreover have "array_inv (n_gens cs) (length (cosets cs)) ?r"
    using assms by (simp add: table_inv_def array_inv_update)
  ultimately show ?thesis
    using eq by (simp add: table_inv_def)
qed

lemma get_inv:
  assumes "table_inv cs" "c < length (cosets cs)" "g < n_gens cs"
  shows "\<exists>v. get cs c g = Inr v \<and> entry_ok (length (cosets cs)) v"
  using assms unfolding get_def table_inv_def array_inv_def
  by (metis nth_mem)

lemma rget_inv:
  assumes "table_inv cs" "t < length (cosets cs)" "g < n_gens cs"
  shows "\<exists>v. rget cs g t = Inr v \<and> entry_ok (length (cosets cs)) v"
  using assms unfolding rget_def table_inv_def array_inv_def
  by (metis nth_mem)

lemma item_in_set: "item xs i = Some x \<Longrightarrow> x \<in> set xs"
  by (auto simp: item_def Let_def split: if_splits)

lemma advance_left_inv:
  "table_inv cs \<Longrightarrow> row_inv cs r \<Longrightarrow>
     advance_left r cs = Inl IndexError_rel \<or>
     (\<exists>r'. advance_left r cs = Inr r' \<and> row_inv cs r' \<and> rel r' = rel r)"
proof (induction r cs rule: advance_left.induct)
  case (1 r cs)
  show ?case
  proof (cases "left r + 1 \<noteq> right r")
    case False
    then show ?thesis using "1.prems" by (simp add: advance_left.simps [of r])
  next
    case True
    note open_window = this
    show ?thesis
    proof (cases "left_gen r")
      case None
      then show ?thesis using open_window by (simp add: advance_left.simps [of r])
    next
      case (Some g)
      then have g: "g < n_gens cs"
        using "1.prems"(2) by (auto simp: left_gen_def row_inv_def dest: item_in_set)
      obtain v where v: "get cs (left_coset r) g = Inr v" "entry_ok (length (cosets cs)) v"
        using get_inv [OF "1.prems"(1) _ g] "1.prems"(2) by (auto simp: row_inv_def)
      show ?thesis
      proof (cases v)
        case None
        then show ?thesis
          using open_window Some v "1.prems" by (simp add: advance_left.simps [of r])
      next
        case (Some t)
        let ?r = "r\<lparr>left := left r + 1, left_coset := t\<rparr>"
        have "row_inv cs ?r"
          using "1.prems"(2) v(2) Some by (simp add: row_inv_def entry_ok_def)
        from "1.IH" [OF open_window \<open>left_gen r = Some g\<close> v(1) Some "1.prems"(1) this]
        show ?thesis
          using open_window \<open>left_gen r = Some g\<close> v(1) Some
          by (simp add: advance_left.simps [of r])
      qed
    qed
  qed
qed

lemma advance_right_inv:
  "table_inv cs \<Longrightarrow> row_inv cs r \<Longrightarrow>
     advance_right r cs = Inl IndexError_rel \<or>
     (\<exists>r'. advance_right r cs = Inr r' \<and> row_inv cs r' \<and> rel r' = rel r)"
proof (induction r cs rule: advance_right.induct)
  case (1 r cs)
  show ?case
  proof (cases "left r + 1 \<noteq> right r")
    case False
    then show ?thesis using "1.prems" by (simp add: advance_right.simps [of r])
  next
    case True
    note open_window = this
    show ?thesis
    proof (cases "right_gen r")
      case None
      then show ?thesis using open_window by (simp add: advance_right.simps [of r])
    next
      case (Some g)
      then have g: "g < n_gens cs"
        using "1.prems"(2) by (auto simp: right_gen_def row_inv_def dest: item_in_set)
      obtain v where v: "rget cs g (right_target r) = Inr v" "entry_ok (length (cosets cs)) v"
        using rget_inv [OF "1.prems"(1) _ g] "1.prems"(2) by (auto simp: row_inv_def)
      show ?thesis
      proof (cases v)
        case None
        then show ?thesis
          using open_window Some v "1.prems" by (simp add: advance_right.simps [of r])
      next
        case (Some c)
        let ?r = "r\<lparr>right := right r - 1, right_target := c\<rparr>"
        have "row_inv cs ?r"
          using "1.prems"(2) v(2) Some by (simp add: row_inv_def entry_ok_def)
        from "1.IH" [OF open_window \<open>right_gen r = Some g\<close> v(1) Some "1.prems"(1) this]
        show ?thesis
          using open_window \<open>right_gen r = Some g\<close> v(1) Some
          by (simp add: advance_right.simps [of r])
      qed
    qed
  qed
qed

declare advance_left.simps [simp del] advance_right.simps [simp del]

lemma row_inv_cong:
  "row_inv cs r \<Longrightarrow> n_gens cs' = n_gens cs \<Longrightarrow> length (cosets cs) \<le> length (cosets cs') \<Longrightarrow>
     row_inv cs' r"
  by (auto simp: row_inv_def)

lemma learn_inv:
  assumes "table_inv cs" "row_inv cs r"
  shows "learn r cs = Inl IndexError_rel \<or>
     (\<exists>r' cs' b. learn r cs = Inr (r', cs', b) \<and> table_inv cs' \<and> row_inv cs' r' \<and>
        rel r' = rel r \<and> length (cosets cs') = length (cosets cs) \<and> n_gens cs' = n_gens cs)"
proof (cases "left r + 1 = right r")
  case True
  then show ?thesis using assms by (auto simp: learn_def)
next
  case False
  note open_window = this
  from advance_left_inv [OF assms] show ?thesis
  proof
    assume "advance_left r cs = Inl IndexError_rel"
    then show ?thesis using open_window by (simp add: learn_def)
  next
    assume "\<exists>r'. advance_left r cs = Inr r' \<and> row_inv cs r' \<and> rel r' = rel r"
    then obtain r1 where r1: "advance_left r cs = Inr r1" "row_inv cs r1" "rel r1 = rel r"
      by blast
    from advance_right_inv [OF assms(1) r1(2)] show ?thesis
    proof
      assume "advance_right r1 cs = Inl IndexError_rel"
      then show ?thesis using open_window r1 by (simp add: learn_def)
    next
      assume "\<exists>r'. advance_right r1 cs = Inr r' \<and> row_inv cs r' \<and> rel r' = rel r1"
      then obtain r2 where r2: "advance_right r1 cs = Inr r2" "row_inv cs r2" "rel r2 = rel r1"
        by blast
      show ?thesis
      proof (cases "left r2 + 1 = right r2")
        case False
        then show ?thesis using open_window r1 r2 assms by (auto simp: learn_def)
      next
        case True
        show ?thesis
        proof (cases "left_gen r2")
          case None
          then show ?thesis using open_window r1 r2 True by (simp add: learn_def)
        next
          case (Some g)
          then have g: "g < n_gens cs"
            using r2(2) by (auto simp: left_gen_def row_inv_def dest: item_in_set)
          have "left_coset r2 < length (cosets cs)" "right_target r2 < length (cosets cs)"
            using r2(2) by (auto simp: row_inv_def)
          from set_coset_inv [OF assms(1) this(1) g this(2)]
          obtain cs' where cs': "set_coset cs (left_coset r2) g (right_target r2) = Inr cs'"
            "table_inv cs'" "length (cosets cs') = length (cosets cs)" "n_gens cs' = n_gens cs"
            by blast
          have "row_inv cs' r2"
            using r2(2) cs' by (simp add: row_inv_def)
          then show ?thesis
            using open_window r1 r2 True Some cs' by (auto simp: learn_def)
        qed
      qed
    qed
  qed
qed

lemma first_undefined_Some:
  "first_undefined j row = Some gen \<Longrightarrow>
     j \<le> gen \<and> gen - j < length row \<and> row ! (gen - j) = None \<and> (\<forall>m < gen - j. row ! m \<noteq> None)"
proof (induction row arbitrary: j)
  case Nil
  then show ?case by simp
next
  case (Cons e row)
  show ?case
  proof (cases "e = None")
    case True
    then show ?thesis using Cons.prems by simp
  next
    case False
    then have "first_undefined (Suc j) row = Some gen" using Cons.prems by auto
    from Cons.IH [OF this] have
      ih: "Suc j \<le> gen" "gen - Suc j < length row" "row ! (gen - Suc j) = None"
        "\<forall>m < gen - Suc j. row ! m \<noteq> None"
      by auto
    have eq: "gen - j = Suc (gen - Suc j)" using ih(1) by arith
    have "\<forall>m < gen - j. (e # row) ! m \<noteq> None"
    proof (intro allI impI)
      fix m assume "m < gen - j"
      then show "(e # row) ! m \<noteq> None"
        using False ih(4) eq by (cases m) auto
    qed
    then show ?thesis using ih eq by simp
  qed
qed

lemma first_undefined_None:
  "first_undefined j row = None \<Longrightarrow> None \<notin> set row"
  by (induction row arbitrary: j) (auto split: if_splits)

lemma first_open_Some:
  "first_open j arr = Some (i, gen) \<Longrightarrow>
     j \<le> i \<and> i - j < length arr \<and> gen < length (arr ! (i - j)) \<and> arr ! (i - j) ! gen = None
     \<and> (\<forall>m < i - j. None \<notin> set (arr ! m)) \<and> (\<forall>m < gen. arr ! (i - j) ! m \<noteq> None)"
proof (induction arr arbitrary: j)
  case Nil
  then show ?case by simp
next
  case (Cons row arr)
  show ?case
  proof (cases "first_undefined 0 row")
    case (Some g)
    then have "i = j" "gen = g" using Cons.prems by auto
    then show ?thesis using first_undefined_Some [OF Some] by simp
  next
    case None
    then have "first_open (Suc j) arr = Some (i, gen)" using Cons.prems by simp
    from Cons.IH [OF this] have
      ih: "Suc j \<le> i" "i - Suc j < length arr" "gen < length (arr ! (i - Suc j))"
        "arr ! (i - Suc j) ! gen = None" "\<forall>m < i - Suc j. None \<notin> set (arr ! m)"
        "\<forall>m < gen. arr ! (i - Suc j) ! m \<noteq> None"
      by auto
    have eq: "i - j = Suc (i - Suc j)" using ih(1) by arith
    have "\<forall>m < i - j. None \<notin> set ((row # arr) ! m)"
    proof (intro allI impI)
      fix m assume "m < i - j"
      then show "None \<notin> set ((row # arr) ! m)"
        using first_undefined_None [OF None] ih(5) eq by (cases m) auto
    qed
    then show ?thesis using ih eq by simp
  qed
qed

lemma first_open_None:
  "first_open j arr = None \<Longrightarrow> \<forall>row \<in> set arr. None \<notin> set row"
  by (induction arr arbitrary: j) (auto split: option.splits dest: first_undefined_None)

lemma add_coset_inv:
  assumes "table_inv cs"
  shows "(\<exists>cs'. add_coset cs = Inr (cs', True) \<and> table_inv cs' \<and>
             length (cosets cs') = Suc (length (cosets cs)) \<and> n_gens cs' = n_gens cs)
         \<or> (add_coset cs = Inr (cs, False) \<and> (\<forall>row \<in> set (cosets cs). None \<notin> set row))"
proof (cases "first_open 0 (cosets cs)")
  case None
  then show ?thesis using first_open_None [OF None] by (simp add: add_coset_def)
next
  case (Some p)
  obtain i gen where p: "p = (i, gen)" by (cases p)
  from first_open_Some [OF Some [unfolded p]]
  have i: "i < length (cosets cs)" and gen: "gen < length (cosets cs ! i)" by auto
  have gen': "gen < n_gens cs" using gen i assms by (simp add: table_inv_lengths)
  have inv: "table_inv (add_row cs)" using assms by (rule table_inv_add_row)
  have len: "length (cosets (add_row cs)) = Suc (length (cosets cs))"
    "n_gens (add_row cs) = n_gens cs"
    by (simp_all add: add_row_def)
  from set_coset_inv [OF inv, of i gen "length (cosets cs)"] i gen' len
  obtain cs' where "set_coset (add_row cs) i gen (length (cosets cs)) = Inr cs'"
    "table_inv cs'" "length (cosets cs') = Suc (length (cosets cs))" "n_gens cs' = n_gens cs"
    by auto
  then show ?thesis using Some p by (simp add: add_coset_def)
qed

lemma frame_inv_grow:
  assumes "frame_inv rels rows cs" "table_inv cs'" "n_gens cs' = n_gens cs"
    "length (cosets cs) \<le> length (cosets cs')"
  shows "frame_inv rels rows cs'"
  using assms unfolding frame_inv_def by (auto intro: row_inv_cong)

lemma row_inv_Row_init:
  "\<forall>g \<in> set w. g < n_gens cs \<Longrightarrow> i < length (cosets cs) \<Longrightarrow> row_inv cs (Row_init w i)"
  by (simp add: row_inv_def Row_init_def)

lemma set_del_subset: "set (del xs i) \<subseteq> set xs"
  using set_take_subset [of i xs] set_drop_subset [of "Suc i" xs] by (auto simp: del_def)

lemma length_del: "i < length xs \<Longrightarrow> length (del xs i) = length xs - 1"
  by (auto simp: del_def)

lemma config_inv_step: "config_inv c \<Longrightarrow> config_inv (step c)"
proof (induction c rule: step.induct)
  case (1 rels rows cs)
  then show ?case by simp
next
  case (2 rels rows cs gen gens)
  then have f: "frame_inv rels rows cs" and g: "gen < n_gens cs" "\<forall>g \<in> set gens. g < n_gens cs"
    by auto
  from f have "table_inv cs" "0 < length (cosets cs)" by (auto simp: frame_inv_def)
  from set_coset_inv [OF this(1) this(2) g(1) this(2)]
  obtain cs' where cs': "set_coset cs 0 gen 0 = Inr cs'" "table_inv cs'"
    "length (cosets cs') = length (cosets cs)" "n_gens cs' = n_gens cs"
    by blast
  have "frame_inv rels rows cs'" using frame_inv_grow [OF f cs'(2) cs'(4)] cs'(3) by simp
  then show ?case using cs' g by simp
next
  case (3 rels rows cs)
  then show ?case by (auto simp: frame_inv_def)
next
  case (4 rels rows cs learned i "is")
  then have f: "frame_inv rels rows cs" and idx: "Suc (length is) \<le> length rows"
    "i # is = rev [0..<Suc (length is)]"
    by auto
  from idx(2) have i: "i = length is" "is = rev [0..<length is]" by auto
  have il: "i < length rows" using idx(1) i by simp
  then have ri: "row_inv cs (rows ! i)" using f by (simp add: frame_inv_def)
  have t: "table_inv cs" using f by (simp add: frame_inv_def)
  from learn_inv [OF t ri] show ?case
  proof
    assume "learn (rows ! i) cs = Inl IndexError_rel"
    then show ?thesis using il by simp
  next
    assume "\<exists>r' cs' b. learn (rows ! i) cs = Inr (r', cs', b) \<and> table_inv cs' \<and> row_inv cs' r'
       \<and> rel r' = rel (rows ! i) \<and> length (cosets cs') = length (cosets cs)
       \<and> n_gens cs' = n_gens cs"
    then obtain r' cs' b where l: "learn (rows ! i) cs = Inr (r', cs', b)" "table_inv cs'"
      "row_inv cs' r'" "length (cosets cs') = length (cosets cs)" "n_gens cs' = n_gens cs"
      by blast
    have f': "frame_inv rels rows cs'" using frame_inv_grow [OF f l(2) l(5)] l(4) by simp
    have "set (rows[i := r']) \<subseteq> insert r' (set rows)" by (rule set_update_subset_insert)
    then have f1: "frame_inv rels (rows[i := r']) cs'"
      using f' l(3) unfolding frame_inv_def by auto
    have "set (del (rows[i := r']) i) \<subseteq> set (rows[i := r'])" by (rule set_del_subset)
    then have f2: "frame_inv rels (del (rows[i := r']) i) cs'"
      using f1 unfolding frame_inv_def by auto
    have "length is \<le> length (del (rows[i := r']) i)" using il i by (simp add: length_del)
    moreover have "length is \<le> length (rows[i := r'])" using il i by simp
    ultimately show ?thesis using l(1) il f1 f2 i(2) by (cases b) auto
  qed
next
  case (5 rels rows cs learned)
  then show ?case by auto
next
  case (6 rels rows cs)
  then have f: "frame_inv rels rows cs" by simp
  then have t: "table_inv cs" by (simp add: frame_inv_def)
  from add_coset_inv [OF t] show ?case
  proof
    assume "\<exists>cs'. add_coset cs = Inr (cs', True) \<and> table_inv cs' \<and>
             length (cosets cs') = Suc (length (cosets cs)) \<and> n_gens cs' = n_gens cs"
    then obtain cs' where a: "add_coset cs = Inr (cs', True)" "table_inv cs'"
      "length (cosets cs') = Suc (length (cosets cs))" "n_gens cs' = n_gens cs"
      by blast
    have f': "frame_inv rels rows cs'" using frame_inv_grow [OF f a(2) a(4)] a(3) by simp
    have "\<forall>r \<in> set (map (\<lambda>rel. Row_init rel (length (cosets cs))) rels). row_inv cs' r"
      using f' a(3) by (auto simp: frame_inv_def intro!: row_inv_Row_init)
    then have "frame_inv rels (rows @ map (\<lambda>rel. Row_init rel (length (cosets cs))) rels) cs'"
      using f' unfolding frame_inv_def by auto
    then show ?thesis using a(1) by simp
  next
    assume "add_coset cs = Inr (cs, False) \<and> (\<forall>row \<in> set (cosets cs). None \<notin> set row)"
    then show ?thesis using t by simp
  qed
next
  case (7 cs)
  then show ?case by simp
next
  case (8 e)
  then show ?case by simp
qed

lemma config_inv_funpow: "config_inv c \<Longrightarrow> config_inv ((step ^^ n) c)"
  by (induction n) (auto intro: config_inv_step)

lemma index_Inr: "index xs g = Inr n \<Longrightarrow> n < length xs \<and> xs ! n = g"
proof (induction xs arbitrary: n)
  case Nil
  then show ?case by simp
next
  case (Cons x xs)
  show ?case
  proof (cases "x = g")
    case True
    then show ?thesis using Cons.prems by simp
  next
    case False
    then obtain m where "index xs g = Inr m" "n = Suc m"
      using Cons.prems by (cases "index xs g") auto
    then show ?thesis using Cons.IH by simp
  qed
qed

lemma index_Inl: "index xs g = Inl e \<Longrightarrow> e = ValueError \<and> g \<notin> set xs"
proof (induction xs)
  case Nil
  then show ?case by simp
next
  case (Cons x xs)
  show ?case
  proof (cases "x = g")
    case True
    then show ?thesis using Cons.prems by simp
  next
    case False
    then have "index xs g = Inl e"
      using Cons.prems by (cases "index xs g") auto
    then show ?thesis using Cons.IH False by simp
  qed
qed

lemma index_absent: "g \<notin> set xs \<Longrightarrow> index xs g = Inl ValueError"
  by (induction xs) auto

lemma comprehension_Inr:
  "comprehension f xs = Inr ys \<Longrightarrow> list_all2 (\<lambda>x y. f x = Inr y) xs ys"
proof (induction xs arbitrary: ys)
  case Nil
  then show ?case by simp
next
  case (Cons x xs)
  from Cons.prems obtain y ys' where "f x = Inr y" "comprehension f xs = Inr ys'" "ys = y # ys'"
    by (cases "f x"; cases "comprehension f xs") auto
  then show ?case using Cons.IH by simp
qed

lemma comprehension_Inl:
  "comprehension f xs = Inl e \<Longrightarrow> \<exists>x \<in> set xs. f x = Inl e"
proof (induction xs)
  case Nil
  then show ?case by simp
next
  case (Cons x xs)
  then show ?case by (cases "f x"; cases "comprehension f xs") auto
qed

lemma comprehension_raises:
  assumes "x \<in> set xs" "f x = Inl e" "\<And>x' e'. x' \<in> set xs \<Longrightarrow> f x' = Inl e' \<Longrightarrow> e' = e"
  shows "comprehension f xs = Inl e"
proof (cases "comprehension f xs")
  case (Inl e')
  then obtain x' where "x' \<in> set xs" "f x' = Inl e'"
    using comprehension_Inl by blast
  then have "e' = e" by (rule assms(3))
  then show ?thesis using Inl by simp
next
  case (Inr ys)
  then have "list_all2 (\<lambda>x y. f x = Inr y) xs ys" by (rule comprehension_Inr)
  moreover obtain i where "i < length xs" "xs ! i = x"
    using assms(1) by (auto simp: in_set_conv_nth)
  ultimately have "f x = Inr (ys ! i)" by (auto simp: list_all2_conv_all_nth)
  then show ?thesis using assms(2) by simp
qed

lemma comprehension_index_Inr:
  assumes "comprehension (index gens) xs = Inr ys"
  shows "\<forall>y \<in> set ys. y < length gens"
proof
  fix y assume "y \<in> set ys"
  then obtain i where i: "i < length ys" "ys ! i = y" by (auto simp: in_set_conv_nth)
  have "list_all2 (\<lambda>x y. index gens x = Inr y) xs ys"
    using assms by (rule comprehension_Inr)
  then have "index gens (xs ! i) = Inr (ys ! i)"
    using i(1) by (simp add: list_all2_conv_all_nth)
  then show "y < length gens" using i(2) by (auto dest: index_Inr)
qed

lemma comprehension_index_Inl:
  assumes "comprehension (index gens) xs = Inl e"
  shows "e = ValueError"
proof -
  obtain x where "index gens x = Inl e" using comprehension_Inl [OF assms] by blast
  then show ?thesis by (auto dest: index_Inl)
qed

lemma comprehension_index_raises:
  assumes "g \<in> set xs" "g \<notin> set gens"
  shows "comprehension (index gens) xs = Inl ValueError"
proof (rule comprehension_raises [of g])
  show "g \<in> set xs" by fact
  show "index gens g = Inl ValueError" using assms(2) by (rule index_absent)
  show "\<And>x' e'. x' \<in> set xs \<Longrightarrow> index gens x' = Inl e' \<Longrightarrow> e' = ValueError"
    by (auto dest: index_Inl)
qed

lemma comprehension2_index_Inr:
  assumes "comprehension (comprehension (index gens)) xss = Inr yss"
  shows "\<forall>ys \<in> set yss. \<forall>y \<in> set ys. y < length gens"
proof
  fix ys assume "ys \<in> set yss"
  then obtain i where i: "i < length yss" "yss ! i = ys" by (auto simp: in_set_conv_nth)
  have "list_all2 (\<lambda>xs ys. comprehension (index gens) xs = Inr ys) xss yss"
    using assms by (rule comprehension_Inr)
  then have "comprehension (index gens) (xss ! i) = Inr ys"
    using i by (auto simp: list_all2_conv_all_nth)
  then show "\<forall>y \<in> set ys. y < length gens" by (rule comprehension_index_Inr)
qed

lemma comprehension2_index_Inl:
  assumes "comprehension (comprehension (index gens)) xss = Inl e"
  shows "e = ValueError"
proof -
  obtain xs where "comprehension (index gens) xs = Inl e"
    using comprehension_Inl [OF assms] by blast
  then show ?thesis by (rule comprehension_index_Inl)
qed

lemma comprehension2_index_raises:
  assumes "xs \<in> set xss" "g \<in> set xs" "g \<notin> set gens"
  shows "comprehension (comprehension (index gens)) xss = Inl ValueError"
proof (rule comprehension_raises [of xs])
  show "xs \<in> set xss" by fact
  show "comprehension (index gens) xs = Inl ValueError"
    using assms(2,3) by (rule comprehension_index_raises)
  show "\<And>x' e'. x' \<in> set xss \<Longrightarrow> comprehension (index gens) x' = Inl e' \<Longrightarrow> e' = ValueError"
    by (rule comprehension_index_Inl)
qed


lemma solve_start_inv:
  assumes "solve_start gens subgens rels = Inr c0"
  shows "config_inv c0"
proof -
  from assms obtain rels' subgens' where
    r: "comprehension (comprehension (index gens)) rels = Inr rels'" and
    s: "comprehension (index gens) subgens = Inr subgens'" and
    c0: "c0 = Subgens rels' (map (\<lambda>w. Row_init w 0) rels') (Cosets_init (length gens) gens)
               subgens'"
    unfolding solve_start_def
    by (cases "comprehension (comprehension (index gens)) rels";
        cases "comprehension (index gens) subgens") auto
  have n: "n_gens (Cosets_init (length gens) gens) = length gens"
    "length (cosets (Cosets_init (length gens) gens)) = 1"
    by (simp_all add: Cosets_init_def add_row_def)
  have "\<forall>r \<in> set (map (\<lambda>w. Row_init w 0) rels'). row_inv (Cosets_init (length gens) gens) r"
    using comprehension2_index_Inr [OF r] n by (auto intro!: row_inv_Row_init)
  then have "frame_inv rels' (map (\<lambda>w. Row_init w 0) rels') (Cosets_init (length gens) gens)"
    using comprehension2_index_Inr [OF r] n table_inv_Cosets_init [of "length gens" gens]
    unfolding frame_inv_def by auto
  then show ?thesis
    using c0 comprehension_index_Inr [OF s] n by simp
qed

lemma outcome_step: "outcome c = Some res \<Longrightarrow> step c = c"
  by (cases c) auto

lemma outcome_funpow: "outcome c = Some res \<Longrightarrow> (step ^^ n) c = c"
  by (induction n) (auto simp: outcome_step)

lemma run_funpow_Some: "outcome ((step ^^ n) c) = Some res \<Longrightarrow> run c = Some res"
proof (induction n arbitrary: c)
  case 0
  then show ?case by (simp add: run.simps)
next
  case (Suc n)
  show ?case
  proof (cases "outcome c")
    case None
    have "outcome ((step ^^ n) (step c)) = Some res"
      using Suc.prems by (simp add: funpow_swap1)
    from Suc.IH [OF this] show ?thesis using None by (subst run.simps) simp
  next
    case (Some res')
    then have "(step ^^ Suc n) c = c" by (rule outcome_funpow)
    then have "res' = res" using Suc.prems Some by simp
    then show ?thesis using Some by (subst run.simps) simp
  qed
qed

lemma run_Some_funpow: "run c = Some res \<Longrightarrow> \<exists>n. outcome ((step ^^ n) c) = Some res"
proof (induction rule: run.raw_induct [rotated 1, consumes 1])
  case (1 run' c res)
  show ?case
  proof (cases "outcome c")
    case None
    then have "run' (step c) = Some res" using 1(2) by simp
    from 1(1) [OF this] obtain n where "outcome ((step ^^ n) (step c)) = Some res" by blast
    then have "outcome ((step ^^ Suc n) c) = Some res" by (simp add: funpow_swap1)
    then show ?thesis by blast
  next
    case (Some res')
    then have "outcome ((step ^^ 0) c) = Some res" using 1(2) by simp
    then show ?thesis by blast
  qed
qed

lemma run_funpow: "run ((step ^^ n) c) = run c"
proof (induction n arbitrary: c)
  case 0
  then show ?case by simp
next
  case (Suc n)
  have "run ((step ^^ Suc n) c) = run ((step ^^ n) (step c))" by (simp add: funpow_swap1)
  also have "\<dots> = run (step c)" by (rule Suc.IH)
  also have "\<dots> = run c"
  proof (cases "outcome c")
    case None
    then show ?thesis by (subst (2) run.simps) simp
  next
    case (Some res)
    then show ?thesis by (simp add: outcome_step)
  qed
  finally show ?case .
qed

lemma solve_Some:
  "solve gens subgens rels = Some res \<Longrightarrow>
     (\<exists>e. solve_start gens subgens rels = Inl e \<and> res = Inl e) \<or>
     (\<exists>c0 n. solve_start gens subgens rels = Inr c0 \<and> outcome ((step ^^ n) c0) = Some res)"
  by (auto simp: solve_def split: sum.splits dest: run_Some_funpow)

lemma outcome_Inr: "outcome c = Some (Inr cs) \<Longrightarrow> c = Returned cs"
  by (cases c) auto


subsection \<open>Symbol lookup in a string alphabet\<close>

lemma str_index_Inl: "str_index s sub = Inl e \<Longrightarrow> e = ValueError"
proof (induction s)
  case Nil
  then show ?case by (simp split: if_splits)
next
  case (Cons c s)
  then show ?case by (cases "str_index s sub") (auto split: if_splits)
qed

lemma str_index_Inr:
  "str_index s sub = Inr n \<Longrightarrow>
     n + length sub \<le> length s \<and> take (length sub) (drop n s) = sub"
proof (induction s arbitrary: n)
  case Nil
  then show ?case by (simp split: if_splits)
next
  case (Cons c s)
  show ?case
  proof (cases "take (length sub) (c # s) = sub")
    case True
    then have n: "n = 0" using Cons.prems by simp
    have "length (take (length sub) (c # s)) = length sub" using True by simp
    then have "length sub \<le> length (c # s)" by simp
    then show ?thesis using n True by simp
  next
    case False
    then obtain m where m: "str_index s sub = Inr m" "n = Suc m"
      using Cons.prems by (cases "str_index s sub") auto
    from Cons.IH [OF m(1)] show ?thesis using m(2) by simp
  qed
qed

lemma str_index_bound:
  "s \<noteq> [] \<Longrightarrow> str_index s sub = Inr n \<Longrightarrow> n < length s"
proof (induction s arbitrary: n)
  case Nil
  then show ?case by simp
next
  case (Cons c s)
  show ?case
  proof (cases "take (length sub) (c # s) = sub")
    case True
    then show ?thesis using Cons.prems by simp
  next
    case False
    then obtain m where m: "str_index s sub = Inr m" "n = Suc m"
      using Cons.prems by (cases "str_index s sub") auto
    have "s \<noteq> []"
    proof
      assume "s = []"
      then have "sub = []" using m(1) by (simp split: if_splits)
      then show False using False by simp
    qed
    then have "m < length s" using m(1) by (rule Cons.IH)
    then show ?thesis using m(2) by simp
  qed
qed

lemma str_index_occurs:
  assumes "str_index s sub = Inr n"
  shows "occurs sub s"
proof -
  from str_index_Inr [OF assms] have "take (length sub) (drop n s) = sub" by simp
  then have "s = take n s @ sub @ drop (length sub) (drop n s)"
    by (metis append_take_drop_id)
  then show ?thesis unfolding occurs_def by blast
qed

lemma occurs_str_index:
  "s = pre @ sub @ post \<Longrightarrow> \<exists>n. str_index s sub = Inr n"
proof (induction pre arbitrary: s)
  case Nil
  then have s: "s = sub @ post" by simp
  show ?case
  proof (cases s)
    case empty: Nil
    then have "sub = []" using s by simp
    then show ?thesis using empty by simp
  next
    case (Cons c r)
    have "take (length sub) s = sub" using s by simp
    then show ?thesis using Cons by simp
  qed
next
  case (Cons p pre)
  then obtain n where n: "str_index (pre @ sub @ post) sub = Inr n" by blast
  have s: "s = p # (pre @ sub @ post)" using Cons.prems by simp
  show ?case unfolding s using n by simp
qed

lemma occurs_iff: "occurs sub s \<longleftrightarrow> (\<exists>n. str_index s sub = Inr n)"
  using str_index_occurs occurs_str_index unfolding occurs_def by blast

lemma str_index_absent: "\<not> occurs sub s \<Longrightarrow> str_index s sub = Inl ValueError"
proof (cases "str_index s sub")
  case (Inl e)
  then show ?thesis using str_index_Inl by blast
next
  case (Inr n)
  assume "\<not> occurs sub s"
  then show ?thesis using str_index_occurs [OF Inr] by simp
qed

text \<open>A symbol of one character is found exactly when it is a character of the alphabet,
  and at the position \<open>list.index\<close> gives in the list of the characters.\<close>

lemma occurs_char: "occurs [c] s \<longleftrightarrow> c \<in> set s"
proof
  assume "occurs [c] s"
  then show "c \<in> set s" unfolding occurs_def by auto
next
  assume "c \<in> set s"
  then obtain pre post where "s = pre @ c # post" by (meson split_list)
  then have "s = pre @ [c] @ post" by simp
  then show "occurs [c] s" unfolding occurs_def by blast
qed

lemma str_index_char: "str_index s [c] = index (chars s) [c]"
  by (induction s) (simp_all add: chars_def)

lemma comprehension_total:
  "\<forall>x \<in> set xs. \<exists>y. f x = Inr y \<Longrightarrow> \<exists>ys. comprehension f xs = Inr ys"
proof (induction xs)
  case Nil
  then show ?case by simp
next
  case (Cons x xs)
  then obtain y ys where "f x = Inr y" "comprehension f xs = Inr ys" by auto
  then show ?case by simp
qed

lemma comprehension_str_index_Inr:
  assumes "comprehension (str_index gens) xs = Inr ys" "gens \<noteq> []"
  shows "\<forall>y \<in> set ys. y < length gens"
proof
  fix y assume "y \<in> set ys"
  then obtain i where i: "i < length ys" "ys ! i = y" by (auto simp: in_set_conv_nth)
  have "list_all2 (\<lambda>x y. str_index gens x = Inr y) xs ys"
    using assms(1) by (rule comprehension_Inr)
  then have "str_index gens (xs ! i) = Inr (ys ! i)"
    using i(1) by (simp add: list_all2_conv_all_nth)
  then show "y < length gens" using i(2) assms(2) by (auto dest: str_index_bound)
qed

lemma comprehension_str_index_Inl:
  assumes "comprehension (str_index gens) xs = Inl e"
  shows "e = ValueError"
proof -
  obtain x where "str_index gens x = Inl e" using comprehension_Inl [OF assms] by blast
  then show ?thesis by (rule str_index_Inl)
qed

lemma comprehension_str_index_raises:
  assumes "g \<in> set xs" "\<not> occurs g gens"
  shows "comprehension (str_index gens) xs = Inl ValueError"
proof (rule comprehension_raises [of g])
  show "g \<in> set xs" by fact
  show "str_index gens g = Inl ValueError" using assms(2) by (rule str_index_absent)
  show "\<And>x' e'. x' \<in> set xs \<Longrightarrow> str_index gens x' = Inl e' \<Longrightarrow> e' = ValueError"
    by (rule str_index_Inl)
qed

lemma comprehension2_str_index_Inr:
  assumes "comprehension (comprehension (str_index gens)) xss = Inr yss" "gens \<noteq> []"
  shows "\<forall>ys \<in> set yss. \<forall>y \<in> set ys. y < length gens"
proof
  fix ys assume "ys \<in> set yss"
  then obtain i where i: "i < length yss" "yss ! i = ys" by (auto simp: in_set_conv_nth)
  have "list_all2 (\<lambda>xs ys. comprehension (str_index gens) xs = Inr ys) xss yss"
    using assms(1) by (rule comprehension_Inr)
  then have "comprehension (str_index gens) (xss ! i) = Inr ys"
    using i by (auto simp: list_all2_conv_all_nth)
  then show "\<forall>y \<in> set ys. y < length gens"
    using assms(2) by (rule comprehension_str_index_Inr)
qed

lemma comprehension2_str_index_Inl:
  assumes "comprehension (comprehension (str_index gens)) xss = Inl e"
  shows "e = ValueError"
proof -
  obtain xs where "comprehension (str_index gens) xs = Inl e"
    using comprehension_Inl [OF assms] by blast
  then show ?thesis by (rule comprehension_str_index_Inl)
qed

lemma comprehension2_str_index_raises:
  assumes "xs \<in> set xss" "g \<in> set xs" "\<not> occurs g gens"
  shows "comprehension (comprehension (str_index gens)) xss = Inl ValueError"
proof (rule comprehension_raises [of xs])
  show "xs \<in> set xss" by fact
  show "comprehension (str_index gens) xs = Inl ValueError"
    using assms(2,3) by (rule comprehension_str_index_raises)
  show "\<And>x' e'. x' \<in> set xss \<Longrightarrow> comprehension (str_index gens) x' = Inl e' \<Longrightarrow>
          e' = ValueError"
    by (rule comprehension_str_index_Inl)
qed

text \<open>
  With a string alphabet that is not empty every index that \<open>solve\<close> computes is below
  \<open>len(gens)\<close>, so the machine starts in a configuration that satisfies the invariant. On
  the empty alphabet the empty symbol gets the index 0, which no column of the table has.
\<close>

lemma solve_start_str_inv:
  assumes "solve_start_str gens subgens rels = Inr c0" "gens \<noteq> []"
  shows "config_inv c0"
proof -
  from assms(1) obtain rels' subgens' where
    r: "comprehension (comprehension (str_index gens)) rels = Inr rels'" and
    s: "comprehension (str_index gens) subgens = Inr subgens'" and
    c0: "c0 = Subgens rels' (map (\<lambda>w. Row_init w 0) rels') (Cosets_init (length gens) gens)
               subgens'"
    unfolding solve_start_str_def
    by (cases "comprehension (comprehension (str_index gens)) rels";
        cases "comprehension (str_index gens) subgens") auto
  have n: "n_gens (Cosets_init (length gens) gens) = length gens"
    "length (cosets (Cosets_init (length gens) gens)) = 1"
    by (simp_all add: Cosets_init_def add_row_def)
  have "\<forall>r \<in> set (map (\<lambda>w. Row_init w 0) rels'). row_inv (Cosets_init (length gens) gens) r"
    using comprehension2_str_index_Inr [OF r assms(2)] n by (auto intro!: row_inv_Row_init)
  then have "frame_inv rels' (map (\<lambda>w. Row_init w 0) rels') (Cosets_init (length gens) gens)"
    using comprehension2_str_index_Inr [OF r assms(2)] n
      table_inv_Cosets_init [of "length gens" gens]
    unfolding frame_inv_def by auto
  then show ?thesis
    using c0 comprehension_str_index_Inr [OF s assms(2)] n by simp
qed

text \<open>\<open>solve('', [''], [])\<close>: the table has one row and no column, and \<open>cosets.set(0, 0, 0)\<close>
  raises.\<close>

lemma solve_str_empty_alphabet: "solve_str [] [[]] [] = Some (Inl IndexError_table)"
  by (simp add: solve_str_def solve_start_str_def run.simps Cosets_init_def add_row_def
        set_coset_def)

subsection \<open>A string alphabet with symbols of one character\<close>

text \<open>
  No step of \<open>solve\<close> reads \<open>names\<close>, so a run does not depend on it. For symbols of one
  character \<open>str.index\<close> on the alphabet and \<open>list.index\<close> on the list of its characters
  agree; then \<open>solve\<close> with the alphabet as one \<open>str\<close> does what it does with the alphabet
  as the list of its characters, and returns the same table with the other \<open>names\<close>.
\<close>

lemma rename_simps [simp]:
  "names (rename nms cs) = nms"
  "n_gens (rename nms cs) = n_gens cs"
  "cosets (rename nms cs) = cosets cs"
  "rcosets (rename nms cs) = rcosets cs"
  by (simp_all add: rename_def)

lemma get_rename [simp]: "get (rename nms cs) c g = get cs c g"
  by (simp add: get_def)

lemma rget_rename [simp]: "rget (rename nms cs) g t = rget cs g t"
  by (simp add: rget_def)

lemma set_coset_rename:
  "set_coset (rename nms cs) c g t = map_sum id (rename nms) (set_coset cs c g t)"
  by (simp add: set_coset_def rename_def Let_def)

lemma add_row_rename: "add_row (rename nms cs) = rename nms (add_row cs)"
  by (simp add: add_row_def rename_def)

lemma add_coset_rename:
  "add_coset (rename nms cs) = map_sum id (\<lambda>(cs', b). (rename nms cs', b)) (add_coset cs)"
proof (cases "first_open 0 (cosets cs)")
  case None
  then show ?thesis by (simp add: add_coset_def)
next
  case (Some p)
  obtain i g where p: "p = (i, g)" by (cases p)
  show ?thesis
    using Some p
    by (cases "set_coset (add_row cs) i g (length (cosets cs))")
       (simp_all add: add_coset_def add_row_rename set_coset_rename)
qed

lemma advance_left_rename: "advance_left r (rename nms cs) = advance_left r cs"
proof (induction r cs rule: advance_left.induct)
  case (1 r cs)
  show ?case
  proof (cases "left r + 1 \<noteq> right r")
    case False
    then show ?thesis by (simp add: advance_left.simps [of r])
  next
    case True
    show ?thesis
    proof (cases "left_gen r")
      case None
      then show ?thesis using True by (simp add: advance_left.simps [of r])
    next
      case (Some g)
      show ?thesis
      proof (cases "get cs (left_coset r) g")
        case (Inl e)
        then show ?thesis using True Some by (simp add: advance_left.simps [of r])
      next
        case (Inr v)
        show ?thesis
        proof (cases v)
          case None
          then show ?thesis using True Some Inr by (simp add: advance_left.simps [of r])
        next
          case target: (Some t)
          have "advance_left (r\<lparr>left := left r + 1, left_coset := t\<rparr>) (rename nms cs) =
                  advance_left (r\<lparr>left := left r + 1, left_coset := t\<rparr>) cs"
            using "1.IH" [OF True Some Inr target] .
          then show ?thesis
            using True Some Inr target
            by (simp add: advance_left.simps [of r])
        qed
      qed
    qed
  qed
qed

lemma advance_right_rename: "advance_right r (rename nms cs) = advance_right r cs"
proof (induction r cs rule: advance_right.induct)
  case (1 r cs)
  show ?case
  proof (cases "left r + 1 \<noteq> right r")
    case False
    then show ?thesis by (simp add: advance_right.simps [of r])
  next
    case True
    show ?thesis
    proof (cases "right_gen r")
      case None
      then show ?thesis using True by (simp add: advance_right.simps [of r])
    next
      case (Some g)
      show ?thesis
      proof (cases "rget cs g (right_target r)")
        case (Inl e)
        then show ?thesis using True Some by (simp add: advance_right.simps [of r])
      next
        case (Inr v)
        show ?thesis
        proof (cases v)
          case None
          then show ?thesis using True Some Inr by (simp add: advance_right.simps [of r])
        next
          case target: (Some t)
          have "advance_right (r\<lparr>right := right r - 1, right_target := t\<rparr>) (rename nms cs) =
                  advance_right (r\<lparr>right := right r - 1, right_target := t\<rparr>) cs"
            using "1.IH" [OF True Some Inr target] .
          then show ?thesis
            using True Some Inr target
            by (simp add: advance_right.simps [of r])
        qed
      qed
    qed
  qed
qed

lemma learn_rename:
  "learn r (rename nms cs) =
     map_sum id (\<lambda>(r', cs', b). (r', rename nms cs', b)) (learn r cs)"
proof (cases "advance_left r cs")
  case (Inl e)
  then show ?thesis by (simp add: learn_def advance_left_rename)
next
  case r1: (Inr r1)
  show ?thesis
  proof (cases "advance_right r1 cs")
    case (Inl e)
    then show ?thesis using r1 by (simp add: learn_def advance_left_rename advance_right_rename)
  next
    case r2: (Inr r2)
    show ?thesis
    proof (cases "left_gen r2")
      case None
      then show ?thesis
        using r1 r2 by (simp add: learn_def advance_left_rename advance_right_rename)
    next
      case (Some g)
      then show ?thesis
        using r1 r2
        by (cases "set_coset cs (left_coset r2) g (right_target r2)")
           (simp_all add: learn_def advance_left_rename advance_right_rename set_coset_rename)
    qed
  qed
qed

lemma step_rename: "step (rename_config nms c) = rename_config nms (step c)"
proof (cases c)
  case (Subgens rels rows cs gens)
  show ?thesis
  proof (cases gens)
    case Nil
    then show ?thesis using Subgens by simp
  next
    case (Cons g gs)
    then show ?thesis
      using Subgens by (cases "set_coset cs 0 g 0") (simp_all add: set_coset_rename)
  qed
next
  case (While_rows rels rows cs)
  then show ?thesis by simp
next
  case (For_rows rels rows cs learned ks)
  show ?thesis
  proof (cases ks)
    case Nil
    then show ?thesis using For_rows by simp
  next
    case (Cons i js)
    show ?thesis
    proof (cases "learn (rows ! i) cs")
      case (Inl e)
      then show ?thesis using For_rows Cons by (simp add: learn_rename)
    next
      case (Inr res)
      obtain r cs' b where "res = (r, cs', b)" by (cases res)
      then show ?thesis using For_rows Cons Inr by (cases b) (simp_all add: learn_rename)
    qed
  qed
next
  case (Add_coset rels rows cs)
  show ?thesis
  proof (cases "add_coset cs")
    case (Inl e)
    then show ?thesis using Add_coset by (simp add: add_coset_rename)
  next
    case (Inr res)
    obtain cs' b where "res = (cs', b)" by (cases res)
    then show ?thesis using Add_coset Inr by (cases b) (simp_all add: add_coset_rename)
  qed
next
  case (Returned cs)
  then show ?thesis by simp
next
  case (Raised e)
  then show ?thesis by simp
qed

lemma funpow_step_rename:
  "(step ^^ n) (rename_config nms c) = rename_config nms ((step ^^ n) c)"
  by (induction n) (simp_all add: step_rename)

lemma outcome_rename:
  "outcome (rename_config nms c) = map_option (map_sum id (rename nms)) (outcome c)"
  by (cases c) simp_all

lemma run_rename:
  "run (rename_config nms c) = map_option (map_sum id (rename nms)) (run c)"
proof (cases "run c")
  case (Some res)
  then obtain n where "outcome ((step ^^ n) c) = Some res" using run_Some_funpow by blast
  then have "outcome ((step ^^ n) (rename_config nms c)) = Some (map_sum id (rename nms) res)"
    by (simp add: funpow_step_rename outcome_rename)
  then have "run (rename_config nms c) = Some (map_sum id (rename nms) res)"
    by (rule run_funpow_Some)
  then show ?thesis using Some by simp
next
  case None
  have "run (rename_config nms c) = None"
  proof (cases "run (rename_config nms c)")
    case (Some res)
    then obtain n where "outcome ((step ^^ n) (rename_config nms c)) = Some res"
      using run_Some_funpow by blast
    then obtain res' where "outcome ((step ^^ n) c) = Some res'"
      by (auto simp: funpow_step_rename outcome_rename)
    then have "run c = Some res'" by (rule run_funpow_Some)
    then show ?thesis using None by simp
  qed simp
  then show ?thesis using None by simp
qed

lemma comprehension_cong:
  "(\<And>x. x \<in> set xs \<Longrightarrow> f x = g x) \<Longrightarrow> comprehension f xs = comprehension g xs"
proof (induction xs)
  case Nil
  then show ?case by simp
next
  case (Cons a xs)
  have "f a = g a" using Cons.prems by simp
  moreover have "comprehension f xs = comprehension g xs" using Cons by simp
  ultimately show ?case by (simp split: sum.splits)
qed

lemma length_chars: "length (chars s) = length s"
  by (simp add: chars_def)

lemma comprehension_str_index_chars:
  "comprehension (str_index s) (chars w) = comprehension (index (chars s)) (chars w)"
  by (rule comprehension_cong) (auto simp: chars_def str_index_char [unfolded chars_def])

lemma solve_start_str_chars:
  "solve_start_str s (chars sub) (map chars rels) =
     map_sum id (rename_config s) (solve_start (chars s) (chars sub) (map chars rels))"
proof -
  have r: "comprehension (comprehension (str_index s)) (map chars rels) =
             comprehension (comprehension (index (chars s))) (map chars rels)"
    by (rule comprehension_cong) (auto simp: comprehension_str_index_chars)
  have c: "Cosets_init (length s) s = rename s (Cosets_init (length (chars s)) (chars s))"
    by (simp add: Cosets_init_def add_row_def rename_def chars_def)
  show ?thesis
    unfolding solve_start_str_def solve_start_def r comprehension_str_index_chars c
    by (simp split: sum.splits)
qed

lemma solve_str_chars:
  "solve_str s (chars sub) (map chars rels) =
     map_option (map_sum id (rename s)) (solve (chars s) (chars sub) (map chars rels))"
  unfolding solve_str_def solve_def solve_start_str_chars
  by (cases "solve_start (chars s) (chars sub) (map chars rels)") (simp_all add: run_rename)

lemma coxeter_str_chars:
  "coxeter_str links_order link_order s (chars sub) rels =
     map_option (map_sum id (rename s)) (coxeter links_order link_order (chars s) (chars sub) rels)"
  unfolding coxeter_str_def coxeter_def by (rule solve_str_chars)

lemma schlafli_str_chars:
  "schlafli_str links_order link_order s (chars sub) coeffs =
     map_option (map_sum id (rename s))
       (schlafli links_order link_order (chars s) (chars sub) coeffs)"
  unfolding schlafli_str_def schlafli_def
  by (simp add: coxeter_str_chars length_chars)

subsection \<open>The dihedral example\<close>

lemma missing_links_ab: "missing_links [''a'', ''b''] [''ababababab''] = {}"
  by (auto simp: missing_links_def permutations2_def chars_def Let_def)

lemma solve_dihedral_5:
  "solve [''a'', ''b''] [''a''] (map chars [''ababababab'', ''aa'', ''bb'']) =
     Some (Inr \<lparr>names = [''a'', ''b''], n_gens = 2,
             cosets = [[Some 0, Some 1], [Some 2, Some 0], [Some 1, Some 3],
                       [Some 4, Some 2], [Some 3, Some 4]],
             rcosets = [[Some 0, Some 1], [Some 2, Some 0], [Some 1, Some 3],
                        [Some 4, Some 2], [Some 3, Some 4]]\<rparr>)"
  by code_simp

text \<open>
  C1. \<open>schlafli(['a','b'], ['a'], (5,))\<close> terminates and returns a table with exactly 5
  cosets. No generator pair is missing for this input, so \<open>coxeter\<close> iterates the empty set
  only, and the result is the same for every iteration order.
\<close>

theorem schlafli_dihedral_5_cosets:
  assumes "iterates links_order {}"
  shows "\<exists>cs. schlafli links_order link_order [''a'', ''b''] [''a''] [5] = Some (Inr cs)
           \<and> length (cosets cs) = 5"
proof -
  have "links_order {} = []"
    using assms by (simp add: iterates_def)
  then have "coxeter_rels links_order link_order [''a'', ''b''] [''ababababab'']
               = [''ababababab'', ''aa'', ''bb'']"
    by (simp add: coxeter_rels_def missing_links_ab)
  moreover have "schlafli links_order link_order [''a'', ''b''] [''a''] [5]
                   = coxeter links_order link_order [''a'', ''b''] [''a''] [''ababababab'']"
    by (simp add: schlafli_def pairwise_py_def numeral_eq_Suc)
  ultimately show ?thesis
    by (simp add: coxeter_def solve_dihedral_5 del: map_map list.map)
qed

theorem schlafli_dihedral_5_cosets_witness:
  "iterates (\<lambda>S. []) ({} :: string set set)
   \<and> (\<exists>cs. schlafli (\<lambda>S. []) (\<lambda>l. []) [''a'', ''b''] [''a''] [5] = Some (Inr cs)
          \<and> length (cosets cs) = 5)"
proof -
  have h: "iterates (\<lambda>S. []) ({} :: string set set)"
    by (simp add: iterates_def)
  show ?thesis
    using h schlafli_dihedral_5_cosets [OF h, of "\<lambda>l. []"] by simp
qed

subsection \<open>Indices stay in bounds\<close>





lemma solve_aa:
  "solve [''a''] [''a''] [[''a'', ''a'']] =
     Some (Inr \<lparr>names = [''a''], n_gens = 1, cosets = [[Some 0]], rcosets = [[Some 0]]\<rparr>)"
  by code_simp


subsection \<open>Saturation\<close>

lemma saturated_of_closed:
  assumes "table_inv cs" "\<forall>row \<in> set (cosets cs). None \<notin> set row"
  shows "saturated cs"
  unfolding saturated_def
proof (intro ballI)
  fix c g assume c: "c \<in> {0..<length (cosets cs)}" and g: "g \<in> {0..<n_gens cs}"
  then have len: "length (cosets cs ! c) = n_gens cs"
    using assms(1) by (simp add: table_inv_lengths)
  have "cosets cs ! c \<in> set (cosets cs)" using c by simp
  then have "None \<notin> set (cosets cs ! c)" using assms(2) by blast
  moreover have "cosets cs ! c ! g \<in> set (cosets cs ! c)" using g len by simp
  ultimately obtain t where "cosets cs ! c ! g = Some t"
    by (cases "cosets cs ! c ! g") auto
  then show "is_defined (get cs c g)" using c g len by (simp add: get_def)
qed

lemma pending_inv_step:
  assumes "config_inv c" "pending_inv c"
  shows "pending_inv (step c)"
proof (cases c)
  case (Subgens rels rows cs gens)
  then show ?thesis using assms by (cases gens) (auto split: sum.splits)
next
  case (While_rows rels rows cs)
  then show ?thesis using assms by auto
next
  case (For_rows rels rows cs learned "is")
  then show ?thesis using assms by (cases "is") (auto split: sum.splits bool.splits)
next
  case (Add_coset rels rows cs)
  then have t: "table_inv cs" and r: "rels \<noteq> []" using assms by (auto simp: frame_inv_def)
  from add_coset_inv [OF t] show ?thesis
  proof
    assume "\<exists>cs'. add_coset cs = Inr (cs', True) \<and> table_inv cs' \<and>
             length (cosets cs') = Suc (length (cosets cs)) \<and> n_gens cs' = n_gens cs"
    then show ?thesis using Add_coset r by auto
  next
    assume "add_coset cs = Inr (cs, False) \<and> (\<forall>row \<in> set (cosets cs). None \<notin> set row)"
    then show ?thesis using Add_coset t by (simp add: saturated_of_closed)
  qed
next
  case (Returned cs)
  then show ?thesis using assms by simp
next
  case (Raised e)
  then show ?thesis by simp
qed

lemma pending_inv_funpow:
  "config_inv c \<Longrightarrow> pending_inv c \<Longrightarrow> pending_inv ((step ^^ n) c)"
  by (induction n) (auto intro: pending_inv_step config_inv_funpow)

lemma solve_start_pending:
  assumes "solve_start gens subgens rels = Inr c0" "rels \<noteq> []"
  shows "pending_inv c0"
proof -
  from assms(1) obtain rels' subgens' where
    r: "comprehension (comprehension (index gens)) rels = Inr rels'" and
    c0: "c0 = Subgens rels' (map (\<lambda>w. Row_init w 0) rels') (Cosets_init (length gens) gens)
               subgens'"
    unfolding solve_start_def
    by (cases "comprehension (comprehension (index gens)) rels";
        cases "comprehension (index gens) subgens") auto
  have "length rels' = length rels"
    using comprehension_Inr [OF r] by (simp add: list_all2_lengthD)
  then have "rels' \<noteq> []" using assms(2) by auto
  then show ?thesis using c0 by simp
qed

text \<open>
  C2, as amended. When at least one relator is given and \<open>solve\<close> returns, the table is
  saturated: every forward entry of every coset is defined. (With no relator \<open>while rows\<close>
  is left at once and the table is returned as it is: see the counterexample.)
\<close>

theorem solve_returns_saturated:
  assumes "rels \<noteq> []" "solve gens subgens rels = Some (Inr cs)"
  shows "saturated cs"
proof -
  from solve_Some [OF assms(2)] obtain c0 n where
    c0: "solve_start gens subgens rels = Inr c0" and
    out: "outcome ((step ^^ n) c0) = Some (Inr cs)"
    by auto
  have "pending_inv ((step ^^ n) c0)"
    using solve_start_inv [OF c0] solve_start_pending [OF c0 assms(1)]
    by (rule pending_inv_funpow)
  moreover have "(step ^^ n) c0 = Returned cs" using out by (rule outcome_Inr)
  ultimately show ?thesis by simp
qed

theorem solve_returns_saturated_witness:
  "[[''a'', ''a'']] \<noteq> [] \<and>
   solve [''a''] [''a''] [[''a'', ''a'']] =
     Some (Inr \<lparr>names = [''a''], n_gens = 1, cosets = [[Some 0]], rcosets = [[Some 0]]\<rparr>) \<and>
   saturated \<lparr>names = [''a''], n_gens = 1, cosets = [[Some 0]], rcosets = [[Some 0]]\<rparr>"
  using solve_returns_saturated [OF _ solve_aa] solve_aa by simp

text \<open>
  With no relator \<open>solve\<close> returns the initial table, whose only entry is undefined.
\<close>

theorem solve_without_relators_unsaturated:
  "solve [''a''] [] [] =
     Some (Inr \<lparr>names = [''a''], n_gens = 1, cosets = [[None]], rcosets = [[None]]\<rparr>) \<and>
   \<not> saturated \<lparr>names = [''a''], n_gens = 1, cosets = [[None]], rcosets = [[None]]\<rparr>"
  by (simp add: solve_def solve_start_def run.simps Cosets_init_def add_row_def
        saturated_def get_def)

subsection \<open>Failing presentations\<close>

text \<open>
  C6, as amended. \<open>solve\<close> fails when \<open>gens.index\<close> does not find a symbol of a relator or
  of the subgroup generators: it raises (a ValueError, the module's form of the
  specification's InvalidPresentation) in lines 136 and 137, before the table is made in
  line 139; \<open>solve_start\<close> yields no configuration, and \<open>solve\<close> ends with the exception
  whatever the enumeration would have done. For an alphabet given as a list the symbols
  not found are those that are no element of it. For an alphabet given as one \<open>str\<close> they
  are those that are no substring of it, and every symbol that is a substring is accepted,
  a symbol of several characters and the empty one too. \<open>schlafli\<close> fails on its first line
  (the \<open>assert\<close>, an AssertionError) when the number of generators is not the number of
  coefficients plus one, before any relator or table is built, for both forms of the
  alphabet.
\<close>

theorem symbol_not_found_fails_first:
  "((\<exists>w \<in> set rels. \<exists>g \<in> set w. g \<notin> set gens) \<or> (\<exists>g \<in> set subgens. g \<notin> set gens) \<longrightarrow>
      solve_start gens subgens rels = Inl ValueError \<and>
      solve gens subgens rels = Some (Inl ValueError))
   \<and> ((\<exists>w \<in> set srels. \<exists>g \<in> set w. \<not> occurs g s) \<or> (\<exists>g \<in> set ssub. \<not> occurs g s) \<longrightarrow>
      solve_start_str s ssub srels = Inl ValueError \<and>
      solve_str s ssub srels = Some (Inl ValueError))
   \<and> (\<not> ((\<exists>w \<in> set trels. \<exists>g \<in> set w. \<not> occurs g t) \<or> (\<exists>g \<in> set tsub. \<not> occurs g t)) \<longrightarrow>
      (\<exists>c. solve_start_str t tsub trels = Inr c))
   \<and> (length gs \<noteq> length coeffs + 1 \<longrightarrow>
        schlafli links_order link_order gs sgs coeffs = Some (Inl AssertionError))
   \<and> (length u \<noteq> length ucoeffs + 1 \<longrightarrow>
        schlafli_str links_order link_order u usub ucoeffs = Some (Inl AssertionError))"
proof (intro conjI impI)
  assume a: "(\<exists>w \<in> set rels. \<exists>g \<in> set w. g \<notin> set gens) \<or> (\<exists>g \<in> set subgens. g \<notin> set gens)"
  show s: "solve_start gens subgens rels = Inl ValueError"
  proof (cases "comprehension (comprehension (index gens)) rels")
    case (Inl e)
    then show ?thesis using comprehension2_index_Inl [OF Inl] by (simp add: solve_start_def)
  next
    case (Inr rels')
    have "\<not> (\<exists>w \<in> set rels. \<exists>g \<in> set w. g \<notin> set gens)"
      using comprehension2_index_raises [of _ rels _ gens] Inr by fastforce
    then obtain g where "g \<in> set subgens" "g \<notin> set gens" using a by blast
    then have "comprehension (index gens) subgens = Inl ValueError"
      by (rule comprehension_index_raises)
    then show ?thesis using Inr by (simp add: solve_start_def)
  qed
  show "solve gens subgens rels = Some (Inl ValueError)"
    using s by (simp add: solve_def)
next
  assume a: "(\<exists>w \<in> set srels. \<exists>g \<in> set w. \<not> occurs g s) \<or> (\<exists>g \<in> set ssub. \<not> occurs g s)"
  show s: "solve_start_str s ssub srels = Inl ValueError"
  proof (cases "comprehension (comprehension (str_index s)) srels")
    case (Inl e)
    then show ?thesis
      using comprehension2_str_index_Inl [OF Inl] by (simp add: solve_start_str_def)
  next
    case (Inr rels')
    have "\<not> (\<exists>w \<in> set srels. \<exists>g \<in> set w. \<not> occurs g s)"
      using comprehension2_str_index_raises [of _ srels _ s] Inr by fastforce
    then obtain g where "g \<in> set ssub" "\<not> occurs g s" using a by blast
    then have "comprehension (str_index s) ssub = Inl ValueError"
      by (rule comprehension_str_index_raises)
    then show ?thesis using Inr by (simp add: solve_start_str_def)
  qed
  show "solve_str s ssub srels = Some (Inl ValueError)"
    using s by (simp add: solve_str_def)
next
  assume a: "\<not> ((\<exists>w \<in> set trels. \<exists>g \<in> set w. \<not> occurs g t) \<or> (\<exists>g \<in> set tsub. \<not> occurs g t))"
  have "\<forall>w \<in> set trels. \<exists>ys. comprehension (str_index t) w = Inr ys"
  proof
    fix w assume "w \<in> set trels"
    then have "\<forall>g \<in> set w. \<exists>n. str_index t g = Inr n" using a occurs_iff by blast
    then show "\<exists>ys. comprehension (str_index t) w = Inr ys" by (rule comprehension_total)
  qed
  then obtain rels' where r: "comprehension (comprehension (str_index t)) trels = Inr rels'"
    using comprehension_total by blast
  have "\<forall>g \<in> set tsub. \<exists>n. str_index t g = Inr n" using a occurs_iff by blast
  then obtain subgens' where "comprehension (str_index t) tsub = Inr subgens'"
    using comprehension_total by blast
  then show "\<exists>c. solve_start_str t tsub trels = Inr c"
    using r by (simp add: solve_start_str_def)
next
  assume "length gs \<noteq> length coeffs + 1"
  then show "schlafli links_order link_order gs sgs coeffs = Some (Inl AssertionError)"
    by (simp add: schlafli_def)
next
  assume "length u \<noteq> length ucoeffs + 1"
  then show "schlafli_str links_order link_order u usub ucoeffs = Some (Inl AssertionError)"
    by (simp add: schlafli_str_def)
qed

theorem symbol_not_found_fails_first_witness:
  "((\<exists>w \<in> set [[''a'', ''c'']]. \<exists>g \<in> set w. g \<notin> set [''a'', ''b''])
      \<or> (\<exists>g \<in> set [''a'']. g \<notin> set [''a'', ''b'']))
   \<and> solve_start [''a'', ''b''] [''a''] [[''a'', ''c'']] = Inl ValueError
   \<and> solve [''a'', ''b''] [''a''] [[''a'', ''c'']] = Some (Inl ValueError)
   \<and> ((\<exists>w \<in> set [[''a'', ''c'']]. \<exists>g \<in> set w. \<not> occurs g ''ab'')
      \<or> (\<exists>g \<in> set [''a'']. \<not> occurs g ''ab''))
   \<and> solve_start_str ''ab'' [''a''] [[''a'', ''c'']] = Inl ValueError
   \<and> solve_str ''ab'' [''a''] [[''a'', ''c'']] = Some (Inl ValueError)
   \<and> \<not> ((\<exists>w \<in> set [[''a'', ''b'']]. \<exists>g \<in> set w. \<not> occurs g ''ab'')
      \<or> (\<exists>g \<in> set [''ab'', '''']. \<not> occurs g ''ab''))
   \<and> (\<exists>c. solve_start_str ''ab'' [''ab'', ''''] [[''a'', ''b'']] = Inr c)
   \<and> length [''a'', ''b''] \<noteq> length [5 :: int, 3] + 1
   \<and> schlafli (\<lambda>S. []) (\<lambda>l. []) [''a'', ''b''] [''a''] [5, 3] = Some (Inl AssertionError)
   \<and> length ''ab'' \<noteq> length [5 :: int, 3] + 1
   \<and> schlafli_str (\<lambda>S. []) (\<lambda>l. []) ''ab'' [''a''] [5, 3] = Some (Inl AssertionError)"
  using symbol_not_found_fails_first [where rels = "[[''a'', ''c'']]" and gens = "[''a'', ''b'']"
          and subgens = "[''a'']" and s = "''ab''" and ssub = "[''a'']"
          and srels = "[[''a'', ''c'']]" and t = "''ab''" and tsub = "[''ab'', '''']"
          and trels = "[[''a'', ''b'']]" and gs = "[''a'', ''b'']" and coeffs = "[5, 3]"
          and links_order = "\<lambda>S. []" and link_order = "\<lambda>l. []" and sgs = "[''a'']"
          and u = "''ab''" and ucoeffs = "[5, 3]" and usub = "[''a'']"]
  by (simp add: occurs_iff)

text \<open>
  \<open>solve('ab', ['ab'], [])\<close>: the symbol \<open>'ab'\<close> is none of the two generators, but it is found
  in the alphabet at 0, and the table is returned with \<open>forward[0][0] = 0\<close>.
\<close>

theorem solve_accepts_substring_symbol:
  "''ab'' \<notin> set (chars ''ab'') \<and>
   solve_str ''ab'' [''ab''] [] =
     Some (Inr \<lparr>names = ''ab'', n_gens = 2, cosets = [[Some 0, None]],
                 rcosets = [[Some 0, None]]\<rparr>)"
  by (simp add: chars_def solve_str_def solve_start_str_def run.simps Cosets_init_def
        add_row_def set_coset_def)

subsection \<open>No relators\<close>

text \<open>
  C7, as amended. \<open>solve\<close> takes no ceiling on the number of cosets and has no exception for
  exceeding one. For two generators, no relators and no subgroup generators it does not
  loop and raises nothing: \<open>while rows\<close> fails at once and the table of the single coset 0,
  all of whose entries are undefined, is returned.
\<close>

theorem solve_two_generators_no_relators:
  "solve [a, b] [] [] =
     Some (Inr \<lparr>names = [a, b], n_gens = 2, cosets = [[None, None]],
                 rcosets = [[None, None]]\<rparr>)"
  by (simp add: solve_def solve_start_def run.simps Cosets_init_def add_row_def numeral_2_eq_2)

text \<open>
  The generators \<open>a\<close> and \<open>b\<close> with no relators: \<open>solve\<close> returns a table; nothing is raised.
\<close>

theorem solve_ab_no_relators_returns:
  "solve [''a'', ''b''] [] [] =
     Some (Inr \<lparr>names = [''a'', ''b''], n_gens = 2, cosets = [[None, None]],
                 rcosets = [[None, None]]\<rparr>)"
  by (simp add: solve_def solve_start_def run.simps Cosets_init_def add_row_def numeral_2_eq_2)

subsection \<open>What learn does\<close>

lemma slice_empty [simp]: "slice w i i = []"
  by (simp add: slice_def)

lemma slice_Cons:
  "0 \<le> i \<Longrightarrow> i < j \<Longrightarrow> slice w i j = w ! nat i # slice w (i + 1) j"
proof -
  assume a: "0 \<le> i" "i < j"
  then have "nat i < nat j" by simp
  then have "[nat i..<nat j] = nat i # [Suc (nat i)..<nat j]" by (rule upt_conv_Cons)
  moreover have "nat (i + 1) = Suc (nat i)" using a by simp
  ultimately show ?thesis by (simp add: slice_def)
qed

lemma slice_snoc:
  "0 \<le> i \<Longrightarrow> i < j \<Longrightarrow> slice w i j = slice w i (j - 1) @ [w ! nat (j - 1)]"
proof -
  assume a: "0 \<le> i" "i < j"
  then have "nat j = Suc (nat (j - 1))" "nat i \<le> nat (j - 1)" by simp_all
  then show ?thesis by (simp add: slice_def)
qed

lemma item_in_range: "0 \<le> i \<Longrightarrow> i < int (length xs) \<Longrightarrow> item xs i = Some (xs ! nat i)"
  by (simp add: item_def)

lemma follow_append:
  "follow cs c (gs @ hs) = (case follow cs c gs of Some t \<Rightarrow> follow cs t hs | None \<Rightarrow> None)"
  by (induction gs arbitrary: c) (auto split: sum.splits option.splits)

lemma follow_back_append:
  "follow_back cs c (gs @ hs) =
     (case follow_back cs c gs of Some t \<Rightarrow> follow_back cs t hs | None \<Rightarrow> None)"
  by (induction gs arbitrary: c) (auto split: sum.splits option.splits)

lemma advance_left_spec:
  "0 \<le> left r \<Longrightarrow> left r < right r \<Longrightarrow> right r \<le> int (length (rel r)) \<Longrightarrow>
   advance_left r cs = Inr r1 \<Longrightarrow>
     rel r1 = rel r \<and> right r1 = right r \<and> right_target r1 = right_target r \<and>
     left r \<le> left r1 \<and> left r1 < right r \<and>
     follow cs (left_coset r) (slice (rel r) (left r) (left r1)) = Some (left_coset r1) \<and>
     (left r1 + 1 = right r \<or> get cs (left_coset r1) (rel r ! nat (left r1)) = Inr None)"
proof (induction r cs rule: advance_left.induct)
  case (1 r cs)
  show ?case
  proof (cases "left r + 1 \<noteq> right r")
    case False
    then have "r1 = r" using "1.prems"(4) by (simp add: advance_left.simps [of r])
    then show ?thesis using False "1.prems" by simp
  next
    case True
    note open_window = this
    have g: "left_gen r = Some (rel r ! nat (left r))"
      using "1.prems" by (simp add: left_gen_def item_in_range)
    show ?thesis
    proof (cases "get cs (left_coset r) (rel r ! nat (left r))")
      case (Inl e)
      then show ?thesis
        using open_window g "1.prems"(4) by (simp add: advance_left.simps [of r])
    next
      case (Inr v)
      show ?thesis
      proof (cases v)
        case None
        then have "r1 = r"
          using open_window g Inr "1.prems"(4) by (simp add: advance_left.simps [of r])
        then show ?thesis using Inr None "1.prems" by simp
      next
        case (Some t)
        let ?r = "r\<lparr>left := left r + 1, left_coset := t\<rparr>"
        have eq: "advance_left ?r cs = Inr r1"
          using open_window g Inr Some "1.prems"(4) by (simp add: advance_left.simps [of r])
        have wf: "0 \<le> left ?r" "left ?r < right ?r" "right ?r \<le> int (length (rel ?r))"
          using "1.prems" open_window by auto
        from "1.IH" [OF open_window g Inr Some wf eq]
        have ih: "rel r1 = rel r" "right r1 = right r" "right_target r1 = right_target r"
          "left r + 1 \<le> left r1" "left r1 < right r"
          "follow cs t (slice (rel r) (left r + 1) (left r1)) = Some (left_coset r1)"
          "left r1 + 1 = right r \<or> get cs (left_coset r1) (rel r ! nat (left r1)) = Inr None"
          by simp_all
        have "slice (rel r) (left r) (left r1)
                = rel r ! nat (left r) # slice (rel r) (left r + 1) (left r1)"
          using "1.prems"(1) ih(4) by (intro slice_Cons) auto
        then have "follow cs (left_coset r) (slice (rel r) (left r) (left r1))
                     = Some (left_coset r1)"
          using Inr Some ih(6) by simp
        then show ?thesis using ih by simp
      qed
    qed
  qed
qed

lemma advance_right_spec:
  "0 \<le> left r \<Longrightarrow> left r < right r \<Longrightarrow> right r \<le> int (length (rel r)) \<Longrightarrow>
   advance_right r cs = Inr r2 \<Longrightarrow>
     rel r2 = rel r \<and> left r2 = left r \<and> left_coset r2 = left_coset r \<and>
     right r2 \<le> right r \<and> left r < right r2 \<and>
     follow_back cs (right_target r) (rev (slice (rel r) (right r2) (right r)))
       = Some (right_target r2) \<and>
     (left r + 1 = right r2 \<or>
      rget cs (rel r ! nat (right r2 - 1)) (right_target r2) = Inr None)"
proof (induction r cs rule: advance_right.induct)
  case (1 r cs)
  show ?case
  proof (cases "left r + 1 \<noteq> right r")
    case False
    then have "r2 = r" using "1.prems"(4) by (simp add: advance_right.simps [of r])
    then show ?thesis using False "1.prems" by simp
  next
    case True
    note open_window = this
    have g: "right_gen r = Some (rel r ! nat (right r - 1))"
      using "1.prems" by (simp add: right_gen_def item_in_range)
    show ?thesis
    proof (cases "rget cs (rel r ! nat (right r - 1)) (right_target r)")
      case (Inl e)
      then show ?thesis
        using open_window g "1.prems"(4) by (simp add: advance_right.simps [of r])
    next
      case (Inr v)
      show ?thesis
      proof (cases v)
        case None
        then have "r2 = r"
          using open_window g Inr "1.prems"(4) by (simp add: advance_right.simps [of r])
        then show ?thesis using Inr None "1.prems" by simp
      next
        case (Some c)
        let ?r = "r\<lparr>right := right r - 1, right_target := c\<rparr>"
        have eq: "advance_right ?r cs = Inr r2"
          using open_window g Inr Some "1.prems"(4) by (simp add: advance_right.simps [of r])
        have wf: "0 \<le> left ?r" "left ?r < right ?r" "right ?r \<le> int (length (rel ?r))"
          using "1.prems" open_window by auto
        from "1.IH" [OF open_window g Inr Some wf eq]
        have ih: "rel r2 = rel r" "left r2 = left r" "left_coset r2 = left_coset r"
          "right r2 \<le> right r - 1" "left r < right r2"
          "follow_back cs c (rev (slice (rel r) (right r2) (right r - 1)))
             = Some (right_target r2)"
          "left r + 1 = right r2 \<or>
           rget cs (rel r ! nat (right r2 - 1)) (right_target r2) = Inr None"
          by simp_all
        have "slice (rel r) (right r2) (right r)
                = slice (rel r) (right r2) (right r - 1) @ [rel r ! nat (right r - 1)]"
          using "1.prems"(1) ih(4,5) by (intro slice_snoc) auto
        then have "follow_back cs (right_target r) (rev (slice (rel r) (right r2) (right r)))
                     = Some (right_target r2)"
          using Inr Some ih(6) by simp
        then show ?thesis using ih by simp
      qed
    qed
  qed
qed


lemma advance_left_error:
  "0 \<le> left r \<Longrightarrow> left r < right r \<Longrightarrow> right r \<le> int (length (rel r)) \<Longrightarrow>
   advance_left r cs = Inl e \<Longrightarrow> e = IndexError_table"
proof (induction r cs rule: advance_left.induct)
  case (1 r cs)
  have open_window: "left r + 1 \<noteq> right r"
    using "1.prems"(4) by (auto simp: advance_left.simps [of r])
  have g: "left_gen r = Some (rel r ! nat (left r))"
    using "1.prems" by (simp add: left_gen_def item_in_range)
  show ?case
  proof (cases "get cs (left_coset r) (rel r ! nat (left r))")
    case (Inl e')
    then have "e' = IndexError_table" by (auto simp: get_def split: if_splits)
    then show ?thesis
      using open_window g Inl "1.prems"(4) by (simp add: advance_left.simps [of r])
  next
    case (Inr v)
    show ?thesis
    proof (cases v)
      case None
      then show ?thesis
        using open_window g Inr "1.prems"(4) by (simp add: advance_left.simps [of r])
    next
      case (Some t)
      let ?r = "r\<lparr>left := left r + 1, left_coset := t\<rparr>"
      have eq: "advance_left ?r cs = Inl e"
        using open_window g Inr Some "1.prems"(4) by (simp add: advance_left.simps [of r])
      have wf: "0 \<le> left ?r" "left ?r < right ?r" "right ?r \<le> int (length (rel ?r))"
        using "1.prems" open_window by auto
      from "1.IH" [OF open_window g Inr Some wf eq] show ?thesis .
    qed
  qed
qed

lemma advance_right_error:
  "0 \<le> left r \<Longrightarrow> left r < right r \<Longrightarrow> right r \<le> int (length (rel r)) \<Longrightarrow>
   advance_right r cs = Inl e \<Longrightarrow> e = IndexError_table"
proof (induction r cs rule: advance_right.induct)
  case (1 r cs)
  have open_window: "left r + 1 \<noteq> right r"
    using "1.prems"(4) by (auto simp: advance_right.simps [of r])
  have g: "right_gen r = Some (rel r ! nat (right r - 1))"
    using "1.prems" by (simp add: right_gen_def item_in_range)
  show ?case
  proof (cases "rget cs (rel r ! nat (right r - 1)) (right_target r)")
    case (Inl e')
    then have "e' = IndexError_table" by (auto simp: rget_def split: if_splits)
    then show ?thesis
      using open_window g Inl "1.prems"(4) by (simp add: advance_right.simps [of r])
  next
    case (Inr v)
    show ?thesis
    proof (cases v)
      case None
      then show ?thesis
        using open_window g Inr "1.prems"(4) by (simp add: advance_right.simps [of r])
    next
      case (Some c)
      let ?r = "r\<lparr>right := right r - 1, right_target := c\<rparr>"
      have eq: "advance_right ?r cs = Inl e"
        using open_window g Inr Some "1.prems"(4) by (simp add: advance_right.simps [of r])
      have wf: "0 \<le> left ?r" "left ?r < right ?r" "right ?r \<le> int (length (rel ?r))"
        using "1.prems" open_window by auto
      from "1.IH" [OF open_window g Inr Some wf eq] show ?thesis .
    qed
  qed
qed

lemma set_coset_error: "set_coset cs c g t = Inl e \<Longrightarrow> e = IndexError_table"
  by (auto simp: set_coset_def Let_def split: if_splits)

lemma learn_scans:
  assumes wf: "window_ok r" and op: "left r + 1 \<noteq> right r"
    and l: "learn r cs = Inr (r', cs', b)"
  shows "\<exists>r1. advance_left r cs = Inr r1 \<and> advance_right r1 cs = Inr r' \<and>
           (b \<longleftrightarrow> left r' + 1 = right r') \<and>
           (b \<longrightarrow> (\<exists>g. left_gen r' = Some g \<and>
                     set_coset cs (left_coset r') g (right_target r') = Inr cs')) \<and>
           (\<not> b \<longrightarrow> cs' = cs)"
proof -
  obtain r1 where r1: "advance_left r cs = Inr r1"
    using op l by (cases "advance_left r cs") (auto simp: learn_def)
  obtain r2 where r2: "advance_right r1 cs = Inr r2"
    using op l r1 by (cases "advance_right r1 cs") (auto simp: learn_def)
  show ?thesis
  proof (cases "left r2 + 1 = right r2")
    case False
    then have "r' = r2" "cs' = cs" "\<not> b" using op l r1 r2 by (auto simp: learn_def)
    then show ?thesis using r1 r2 False by auto
  next
    case True
    then obtain g where g: "left_gen r2 = Some g"
      using op l r1 r2 by (cases "left_gen r2") (auto simp: learn_def)
    then have "set_coset cs (left_coset r2) g (right_target r2) = Inr cs'" "r' = r2" "b"
      using op l r1 r2 True
      by (cases "set_coset cs (left_coset r2) g (right_target r2)"; auto simp: learn_def)+
    then show ?thesis using r1 r2 True g by auto
  qed
qed

lemma learn_returns:
  assumes wf: "window_ok r" and t: "table_inv cs" and ri: "row_inv cs r"
  shows "\<exists>r' cs' b. learn r cs = Inr (r', cs', b)"
proof (cases "left r + 1 = right r")
  case True
  then have "learn r cs = Inr (r, cs, False)" by (simp add: learn_def)
  then show ?thesis by blast
next
  case False
  have w: "0 \<le> left r" "left r < right r" "right r \<le> int (length (rel r))"
    using wf by (simp_all add: window_ok_def)
  have nl: "advance_left r cs \<noteq> Inl IndexError_rel"
    using advance_left_error [OF w] by fastforce
  with advance_left_inv [OF t ri] obtain r1 where
    r1: "advance_left r cs = Inr r1" "row_inv cs r1" by blast
  from advance_left_spec [OF w r1(1)] have
    w1: "0 \<le> left r1" "left r1 < right r1" "right r1 \<le> int (length (rel r1))"
    using w by auto
  have "advance_right r1 cs \<noteq> Inl IndexError_rel"
    using advance_right_error [OF w1] by fastforce
  with advance_right_inv [OF t r1(2)] obtain r2 where
    r2: "advance_right r1 cs = Inr r2" by blast
  from advance_right_spec [OF w1 r2] have
    "0 \<le> left r2" "left r2 < int (length (rel r2))"
    using w1 by auto
  then have "left_gen r2 \<noteq> None" by (simp add: left_gen_def item_in_range)
  then have "learn r cs \<noteq> Inl IndexError_rel"
    using False r1 r2
    by (auto simp: learn_def split: option.splits sum.splits dest: set_coset_error)
  then show ?thesis using learn_inv [OF t ri] by blast
qed

text \<open>
  C4. \<open>learn\<close> on a row whose window is in order (every row that \<open>Row(rel, i)\<close> makes from
  a non-empty relator, and every row \<open>learn\<close> hands back):
  \<^item> if the window is a single step already, nothing changes and the answer is False;
  \<^item> on a well-formed table it raises nothing;
  \<^item> otherwise the left end moves right along defined forward entries (\<open>follow\<close>) until the
    window is a single step or the next forward entry is undefined; then the right end moves
    left along defined reverse entries (\<open>follow_back\<close>) until the window is a single step
    or the next reverse entry is undefined;
  \<^item> the answer is True exactly when the window is then a single step, and in that case the
    table is the old one after the one call \<open>set(left_coset, rel[left], right_target)\<close>;
  \<^item> when the answer is False the table is unchanged.
\<close>

theorem learn_behaviour:
  assumes "window_ok r"
  shows "(left r + 1 = right r \<longrightarrow> learn r cs = Inr (r, cs, False))
    \<and> (w \<noteq> [] \<longrightarrow> window_ok (Row_init w i))
    \<and> (learn r cs = Inr (r', cs', b) \<longrightarrow> window_ok r')
    \<and> (table_inv cs \<and> row_inv cs r \<longrightarrow> (\<exists>r' cs' b. learn r cs = Inr (r', cs', b)))
    \<and> (left r + 1 \<noteq> right r \<and> learn r cs = Inr (r', cs', b) \<longrightarrow>
         rel r' = rel r \<and> left r \<le> left r' \<and> left r' < right r' \<and> right r' \<le> right r
       \<and> follow cs (left_coset r) (slice (rel r) (left r) (left r')) = Some (left_coset r')
       \<and> (left r' + 1 = right r \<or> get cs (left_coset r') (rel r ! nat (left r')) = Inr None)
       \<and> follow_back cs (right_target r) (rev (slice (rel r) (right r') (right r)))
           = Some (right_target r')
       \<and> (left r' + 1 = right r' \<or>
            rget cs (rel r ! nat (right r' - 1)) (right_target r') = Inr None)
       \<and> (b \<longleftrightarrow> left r' + 1 = right r')
       \<and> (b \<longrightarrow> set_coset cs (left_coset r') (rel r ! nat (left r')) (right_target r')
                   = Inr cs')
       \<and> (\<not> b \<longrightarrow> cs' = cs))"
proof (intro conjI impI)
  assume "left r + 1 = right r"
  then show "learn r cs = Inr (r, cs, False)" by (simp add: learn_def)
next
  assume "w \<noteq> []"
  then show "window_ok (Row_init w i)" by (simp add: window_ok_def Row_init_def)
next
  assume l: "learn r cs = Inr (r', cs', b)"
  show "window_ok r'"
  proof (cases "left r + 1 = right r")
    case True
    then show ?thesis using l assms by (simp add: learn_def)
  next
    case False
    have w: "0 \<le> left r" "left r < right r" "right r \<le> int (length (rel r))"
      using assms by (simp_all add: window_ok_def)
    from learn_scans [OF assms False l] obtain r1 where
      r1: "advance_left r cs = Inr r1" and r2: "advance_right r1 cs = Inr r'"
      by blast
    note s1 = advance_left_spec [OF w r1]
    have w1: "0 \<le> left r1" "left r1 < right r1" "right r1 \<le> int (length (rel r1))"
      using s1 w by auto
    note s2 = advance_right_spec [OF w1 r2]
    show ?thesis using s1 s2 w w1 by (simp add: window_ok_def)
  qed
next
  assume "table_inv cs \<and> row_inv cs r"
  then show "\<exists>r' cs' b. learn r cs = Inr (r', cs', b)"
    using learn_returns [OF assms] by blast
next
  assume a: "left r + 1 \<noteq> right r \<and> learn r cs = Inr (r', cs', b)"
  have w: "0 \<le> left r" "left r < right r" "right r \<le> int (length (rel r))"
    using assms by (simp_all add: window_ok_def)
  from learn_scans [OF assms] a obtain r1 where
    r1: "advance_left r cs = Inr r1" and r2: "advance_right r1 cs = Inr r'" and
    b: "b \<longleftrightarrow> left r' + 1 = right r'" and
    wr: "b \<longrightarrow> (\<exists>g. left_gen r' = Some g \<and>
                  set_coset cs (left_coset r') g (right_target r') = Inr cs')" and
    nw: "\<not> b \<longrightarrow> cs' = cs"
    by blast
  note s1 = advance_left_spec [OF w r1]
  have w1: "0 \<le> left r1" "left r1 < right r1" "right r1 \<le> int (length (rel r1))"
    using s1 w by auto
  note s2 = advance_right_spec [OF w1 r2]
  show "rel r' = rel r" using s1 s2 by simp
  show "left r \<le> left r'" using s1 s2 by simp
  show "left r' < right r'" using s1 s2 by simp
  show "right r' \<le> right r" using s1 s2 by simp
  show "follow cs (left_coset r) (slice (rel r) (left r) (left r')) = Some (left_coset r')"
    using s1 s2 by simp
  show "left r' + 1 = right r \<or> get cs (left_coset r') (rel r ! nat (left r')) = Inr None"
    using s1 s2 by simp
  show "follow_back cs (right_target r) (rev (slice (rel r) (right r') (right r)))
           = Some (right_target r')"
    using s1 s2 by simp
  show "left r' + 1 = right r' \<or>
            rget cs (rel r ! nat (right r' - 1)) (right_target r') = Inr None"
    using s1 s2 by simp
  show "b \<longleftrightarrow> left r' + 1 = right r'" by (rule b)
  have "left_gen r' = Some (rel r ! nat (left r'))"
    using s1 s2 w by (simp add: left_gen_def item_in_range)
  then show "b \<Longrightarrow> set_coset cs (left_coset r') (rel r ! nat (left r')) (right_target r')
                   = Inr cs'"
    using wr by auto
  show "\<not> b \<Longrightarrow> cs' = cs" using nw by simp
qed

text \<open>
  The row of the relator \<open>aa\<close> at coset 0, on a table that knows \<open>0 a = 1\<close> only: the left
  end reaches the single step, \<open>set(1, a, 0)\<close> is written, and the row handed back is a
  single step, on which \<open>learn\<close> does nothing more.
\<close>

theorem learn_behaviour_witness:
  "window_ok (Row_init [0, 0] 0)
   \<and> left (Row_init [0, 0] 0) + 1 \<noteq> right (Row_init [0, 0] 0)
   \<and> table_inv (\<lparr>names = [''a'', ''b''], n_gens = 2, cosets = [[Some 1, None], [None, None]],
               rcosets = [[None, None], [Some 0, None]]\<rparr> :: string Cosets)
   \<and> row_inv (\<lparr>names = [''a'', ''b''], n_gens = 2, cosets = [[Some 1, None], [None, None]],
               rcosets = [[None, None], [Some 0, None]]\<rparr> :: string Cosets)
         (Row_init [0, 0] 0)
   \<and> learn (Row_init [0, 0] 0)
         (\<lparr>names = [''a'', ''b''], n_gens = 2, cosets = [[Some 1, None], [None, None]],
               rcosets = [[None, None], [Some 0, None]]\<rparr> :: string Cosets)
       = Inr (\<lparr>rel = [0, 0], left = 1, right = 2, left_coset = 1, right_target = 0\<rparr>,
              \<lparr>names = [''a'', ''b''], n_gens = 2, cosets = [[Some 1, None], [Some 0, None]],
                rcosets = [[Some 1, None], [Some 0, None]]\<rparr>,
              True)
   \<and> follow (\<lparr>names = [''a'', ''b''], n_gens = 2, cosets = [[Some 1, None], [None, None]],
               rcosets = [[None, None], [Some 0, None]]\<rparr> :: string Cosets)
         0 (slice [0, 0] 0 1) = Some 1
   \<and> set_coset (\<lparr>names = [''a'', ''b''], n_gens = 2, cosets = [[Some 1, None], [None, None]],
               rcosets = [[None, None], [Some 0, None]]\<rparr> :: string Cosets)
         1 0 0
       = Inr \<lparr>names = [''a'', ''b''], n_gens = 2, cosets = [[Some 1, None], [Some 0, None]],
                rcosets = [[Some 1, None], [Some 0, None]]\<rparr>
   \<and> window_ok \<lparr>rel = [0, 0], left = 1, right = 2, left_coset = 1, right_target = 0\<rparr>
   \<and> learn \<lparr>rel = [0, 0], left = 1, right = 2, left_coset = 1, right_target = 0\<rparr>
         (\<lparr>names = [''a'', ''b''], n_gens = 2, cosets = [[Some 1, None], [Some 0, None]],
                rcosets = [[Some 1, None], [Some 0, None]]\<rparr> :: string Cosets)
       = Inr (\<lparr>rel = [0, 0], left = 1, right = 2, left_coset = 1, right_target = 0\<rparr>,
              \<lparr>names = [''a'', ''b''], n_gens = 2, cosets = [[Some 1, None], [Some 0, None]],
                rcosets = [[Some 1, None], [Some 0, None]]\<rparr>,
              False)"
proof -
  let ?cs = "\<lparr>names = [''a'', ''b''], n_gens = 2, cosets = [[Some 1, None], [None, None]],
               rcosets = [[None, None], [Some 0, None]]\<rparr> :: string Cosets"
  let ?cs' = "\<lparr>names = [''a'', ''b''], n_gens = 2, cosets = [[Some 1, None], [Some 0, None]],
                rcosets = [[Some 1, None], [Some 0, None]]\<rparr> :: string Cosets"
  let ?r' = "\<lparr>rel = [0, 0], left = 1, right = 2, left_coset = 1, right_target = 0\<rparr>"
  have w: "window_ok (Row_init [0, 0] 0)" by code_simp
  have n: "left (Row_init [0, 0] 0) + 1 \<noteq> right (Row_init [0, 0] 0)" by code_simp
  have t: "table_inv ?cs" by code_simp
  have r: "row_inv ?cs (Row_init [0, 0] 0)" by code_simp
  have l: "learn (Row_init [0, 0] 0) ?cs = Inr (?r', ?cs', True)" by code_simp
  have w': "window_ok ?r'" by code_simp
  have s: "left ?r' + 1 = right ?r'" by simp
  from learn_behaviour [OF w, where cs = ?cs and r' = ?r' and cs' = ?cs' and b = True
                          and w = "[]"] n l
  have 1: "follow ?cs 0 (slice [0, 0] 0 1) = Some 1" "set_coset ?cs 1 0 0 = Inr ?cs'"
    by (simp_all add: Row_init_def)
  from learn_behaviour [OF w', where cs = ?cs' and w = "[]"] s
  have 2: "learn ?r' ?cs' = Inr (?r', ?cs', False)"
    by blast
  show ?thesis using w n t r l w' 1 2 by blast
qed

subsection \<open>Runs without overwriting\<close>

lemma set_coset_Inr:
  assumes "set_coset cs c g t = Inr cs'"
  shows "c < length (cosets cs)" "g < length (cosets cs ! c)"
    "t < length (rcosets cs)" "g < length (rcosets cs ! t)"
    "cs' = cs\<lparr>cosets := (cosets cs)[c := (cosets cs ! c)[g := Some t]],
               rcosets := (rcosets cs)[t := (rcosets cs ! t)[g := Some c]]\<rparr>"
  using assms by (auto simp: set_coset_def Let_def split: if_splits)

lemma set_coset_sizes:
  assumes "set_coset cs c g t = Inr cs'"
  shows "length (cosets cs') = length (cosets cs)" "n_gens cs' = n_gens cs"
    "length (rcosets cs') = length (rcosets cs)"
  using set_coset_Inr(5) [OF assms] by simp_all

lemma get_set_coset:
  assumes "set_coset cs c g t = Inr cs'"
  shows "get cs' c' g' = (if c' = c \<and> g' = g then Inr (Some t) else get cs c' g')"
proof -
  note s = set_coset_Inr [OF assms]
  have c: "cosets cs' = (cosets cs)[c := (cosets cs ! c)[g := Some t]]"
    using s(5) by simp
  show ?thesis
  proof (cases "c' = c")
    case True
    then show ?thesis using s(1,2) c by (auto simp: get_def)
  next
    case False
    then show ?thesis using c by (simp add: get_def)
  qed
qed

lemma rget_set_coset:
  assumes "set_coset cs c g t = Inr cs'"
  shows "rget cs' g' t' = (if t' = t \<and> g' = g then Inr (Some c) else rget cs g' t')"
proof -
  note s = set_coset_Inr [OF assms]
  have c: "rcosets cs' = (rcosets cs)[t := (rcosets cs ! t)[g := Some c]]"
    using s(5) by simp
  show ?thesis
  proof (cases "t' = t")
    case True
    then show ?thesis using s(3,4) c by (auto simp: rget_def)
  next
    case False
    then show ?thesis using c by (simp add: rget_def)
  qed
qed

lemma get_add_row:
  "get (add_row cs) c g =
     (if c = length (cosets cs) then (if g < n_gens cs then Inr None else Inl IndexError_table)
      else get cs c g)"
  by (auto simp: get_def add_row_def nth_append)

lemma rget_add_row:
  "t < length (rcosets cs) \<Longrightarrow> rget (add_row cs) g t = rget cs g t"
  by (auto simp: rget_def add_row_def nth_append)

lemma rget_Inr_bound: "rget cs g t = Inr v \<Longrightarrow> t < length (rcosets cs)"
  by (auto simp: rget_def split: if_splits)

lemma get_Inr_bound: "get cs c g = Inr v \<Longrightarrow> c < length (cosets cs)"
  by (auto simp: get_def split: if_splits)

lemma symmetric_set_coset:
  assumes sym: "symmetric cs" and s: "set_coset cs c g t = Inr cs'"
    and no: "\<not> overwrites_reverse cs c g t"
  shows "symmetric cs'"
  unfolding symmetric_def
proof (intro ballI)
  fix c' g' assume c': "c' \<in> {0..<length (cosets cs')}" and g': "g' \<in> {0..<n_gens cs'}"
  then have r: "c' \<in> {0..<length (cosets cs)}" "g' \<in> {0..<n_gens cs}"
    using set_coset_sizes [OF s] by simp_all
  show "case get cs' c' g' of Inr (Some t') \<Rightarrow> rget cs' g' t' = Inr (Some c') | _ \<Rightarrow> True"
  proof (cases "c' = c \<and> g' = g")
    case True
    then show ?thesis by (simp add: get_set_coset [OF s] rget_set_coset [OF s])
  next
    case False
    then have eq: "get cs' c' g' = get cs c' g'" by (auto simp: get_set_coset [OF s])
    show ?thesis
    proof (cases "get cs c' g'")
      case (Inl e)
      then show ?thesis using eq by simp
    next
      case (Inr v)
      show ?thesis
      proof (cases v)
        case None
        then show ?thesis using eq Inr by simp
      next
        case (Some t')
        have old: "rget cs g' t' = Inr (Some c')"
          using sym r Inr Some unfolding symmetric_def by fastforce
        have "rget cs' g' t' = Inr (Some c')"
        proof (cases "t' = t \<and> g' = g")
          case True
          then have "c' = c" using old no by (simp add: overwrites_reverse_def)
          then show ?thesis using True False by simp
        next
          case False
          then show ?thesis using old by (auto simp: rget_set_coset [OF s])
        qed
        then show ?thesis using eq Inr Some by simp
      qed
    qed
  qed
qed

lemma symmetric_add_row:
  assumes "symmetric cs"
  shows "symmetric (add_row cs)"
  unfolding symmetric_def
proof (intro ballI)
  fix c g assume c: "c \<in> {0..<length (cosets (add_row cs))}" and g: "g \<in> {0..<n_gens (add_row cs)}"
  then have g': "g \<in> {0..<n_gens cs}" by (simp add: add_row_def)
  show "case get (add_row cs) c g of
          Inr (Some t) \<Rightarrow> rget (add_row cs) g t = Inr (Some c) | _ \<Rightarrow> True"
  proof (cases "c = length (cosets cs)")
    case True
    then show ?thesis using g' by (simp add: get_add_row)
  next
    case False
    then have c': "c \<in> {0..<length (cosets cs)}" using c by (simp add: add_row_def)
    have eq: "get (add_row cs) c g = get cs c g" using False by (simp add: get_add_row)
    show ?thesis
    proof (cases "get cs c g")
      case (Inl e)
      then show ?thesis using eq by simp
    next
      case (Inr v)
      show ?thesis
      proof (cases v)
        case None
        then show ?thesis using eq Inr by simp
      next
        case (Some t)
        have old: "rget cs g t = Inr (Some c)"
          using assms c' g' Inr Some unfolding symmetric_def by fastforce
        then have "rget (add_row cs) g t = Inr (Some c)"
          using rget_add_row [OF rget_Inr_bound [OF old]] by simp
        then show ?thesis using eq Inr Some by simp
      qed
    qed
  qed
qed

lemma symmetric_Cosets_init: "symmetric (Cosets_init n nms)"
  by (auto simp: symmetric_def Cosets_init_def add_row_def get_def)


lemma learn_learn_set:
  assumes "learn r cs = Inr (r', cs', b)"
  shows "(b \<longrightarrow> (\<exists>c g t. learn_set r cs = Some (c, g, t) \<and> set_coset cs c g t = Inr cs'))
       \<and> (\<not> b \<longrightarrow> learn_set r cs = None \<and> cs' = cs)"
proof (cases "left r + 1 = right r")
  case True
  then show ?thesis using assms by (auto simp: learn_def learn_set_def)
next
  case False
  note op = this
  obtain r1 where r1: "advance_left r cs = Inr r1"
    using op assms by (cases "advance_left r cs") (auto simp: learn_def)
  obtain r2 where r2: "advance_right r1 cs = Inr r2"
    using op assms r1 by (cases "advance_right r1 cs") (auto simp: learn_def)
  show ?thesis
  proof (cases "left r2 + 1 = right r2")
    case False
    then show ?thesis using op assms r1 r2 by (auto simp: learn_def learn_set_def)
  next
    case True
    then obtain g where g: "left_gen r2 = Some g"
      using op assms r1 r2 by (cases "left_gen r2") (auto simp: learn_def)
    then have "set_coset cs (left_coset r2) g (right_target r2) = Inr cs' \<and> b"
      using op assms r1 r2 True
      by (cases "set_coset cs (left_coset r2) g (right_target r2)") (auto simp: learn_def)
    then show ?thesis using op r1 r2 True g by (auto simp: learn_set_def)
  qed
qed

lemma step_table_change:
  assumes "table_of c = Some cs" "table_of (step c) = Some cs'"
  shows "(next_set c = None \<and> cs' = cs)
       \<or> (\<exists>x g t. next_set c = Some (cs, x, g, t) \<and> set_coset cs x g t = Inr cs')
       \<or> (\<exists>x g. next_set c = Some (add_row cs, x, g, length (cosets cs)) \<and>
                  get cs x g = Inr None \<and>
                  set_coset (add_row cs) x g (length (cosets cs)) = Inr cs')"
proof (cases c)
  case (Subgens rels rows t gens)
  show ?thesis
  proof (cases gens)
    case Nil
    then show ?thesis using assms Subgens by simp
  next
    case (Cons g gs)
    then show ?thesis using assms Subgens by (cases "set_coset cs 0 g 0") auto
  qed
next
  case (While_rows rels rows t)
  then show ?thesis using assms by (auto split: if_splits)
next
  case (For_rows rels rows t learned "is")
  show ?thesis
  proof (cases "is")
    case Nil
    then show ?thesis using assms For_rows by (auto split: if_splits)
  next
    case (Cons i js)
    show ?thesis
    proof (cases "i < length rows")
      case False
      then show ?thesis using assms For_rows Cons by simp
    next
      case True
      show ?thesis
      proof (cases "learn (rows ! i) cs")
        case (Inl e)
        then show ?thesis using assms For_rows Cons True by simp
      next
        case (Inr res)
        obtain r' cs1 b where res: "res = (r', cs1, b)" by (cases res)
        have "cs1 = cs'" using assms For_rows Cons True Inr res by (cases b) auto
        with learn_learn_set [OF Inr [unfolded res]] show ?thesis
          using assms(1) For_rows Cons True by (cases b) auto
      qed
    qed
  qed
next
  case (Add_coset rels rows t)
  then have t: "t = cs" using assms by simp
  show ?thesis
  proof (cases "first_open 0 (cosets cs)")
    case None
    then show ?thesis using assms Add_coset by (simp add: add_coset_def)
  next
    case (Some p)
    obtain i gen where p: "p = (i, gen)" by (cases p)
    from first_open_Some [OF Some [unfolded p]]
    have "get cs i gen = Inr None" by (simp add: get_def)
    moreover have "set_coset (add_row cs) i gen (length (cosets cs)) = Inr cs'"
      using assms Add_coset Some p
      by (cases "set_coset (add_row cs) i gen (length (cosets cs))")
         (auto simp: add_coset_def)
    ultimately show ?thesis using Add_coset t Some p by simp
  qed
next
  case (Returned t)
  then show ?thesis using assms by simp
next
  case (Raised e)
  then show ?thesis using assms by simp
qed

lemma table_of_None_step: "table_of c = None \<Longrightarrow> table_of ((step ^^ n) c) = None"
  by (cases c) (simp_all add: outcome_funpow)

lemma symmetric_step:
  assumes "table_of c = Some cs" "symmetric cs" "\<not> reverse_conflict c"
    "table_of (step c) = Some cs'"
  shows "symmetric cs'"
  using step_table_change [OF assms(1,4)]
proof (elim disjE exE conjE)
  assume "cs' = cs"
  then show ?thesis using assms(2) by simp
next
  fix x g t assume n: "next_set c = Some (cs, x, g, t)" and s: "set_coset cs x g t = Inr cs'"
  have "\<not> overwrites_reverse cs x g t" using assms(3) n by (simp add: reverse_conflict_def)
  then show ?thesis using assms(2) s by (intro symmetric_set_coset [of cs x g t cs'])
next
  fix x g assume n: "next_set c = Some (add_row cs, x, g, length (cosets cs))"
    and s: "set_coset (add_row cs) x g (length (cosets cs)) = Inr cs'"
  have "\<not> overwrites_reverse (add_row cs) x g (length (cosets cs))"
    using assms(3) n by (simp add: reverse_conflict_def)
  then show ?thesis
    using symmetric_add_row [OF assms(2)] s
    by (intro symmetric_set_coset [of "add_row cs" x g "length (cosets cs)" cs'])
qed

lemma symmetric_run:
  "reverse_safe n c \<Longrightarrow> table_of c = Some cs \<Longrightarrow> symmetric cs \<Longrightarrow>
     (case table_of ((step ^^ n) c) of Some cs' \<Rightarrow> symmetric cs' | None \<Rightarrow> True)"
proof (induction n arbitrary: c cs)
  case 0
  then show ?case by simp
next
  case (Suc n)
  have sw: "(step ^^ Suc n) c = (step ^^ n) (step c)" by (simp add: funpow_swap1)
  show ?case
  proof (cases "table_of (step c)")
    case None
    then show ?thesis using table_of_None_step [OF None, of n] sw by simp
  next
    case (Some cs1)
    have "symmetric cs1"
      using Suc.prems Some by (intro symmetric_step [of c cs cs1]) simp_all
    then show ?thesis using Suc.IH [OF _ Some] Suc.prems(1) sw by simp
  qed
qed

lemma solve_start_table:
  assumes "solve_start gens subgens rels = Inr c0"
  shows "table_of c0 = Some (Cosets_init (length gens) gens)"
  using assms unfolding solve_start_def
  by (cases "comprehension (comprehension (index gens)) rels";
      cases "comprehension (index gens) subgens") auto

lemma solve_returned:
  assumes "solve_start gens subgens rels = Inr c0" "(step ^^ n) c0 = Returned cs"
  shows "solve gens subgens rels = Some (Inr cs)"
proof -
  have "outcome ((step ^^ n) c0) = Some (Inr cs)" using assms(2) by simp
  then have "run c0 = Some (Inr cs)" by (rule run_funpow_Some)
  then show ?thesis using assms(1) by (simp add: solve_def)
qed

text \<open>
  C3, as amended. \<open>set\<close> writes both arrays without looking at what they hold. In a run
  whose first \<open>n\<close> steps make no \<open>set\<close> call that replaces a defined reverse entry by
  another coset, the table after these steps is symmetric: if \<open>forward[c][g] = t\<close> is
  defined then \<open>reverse[t][g]\<close> is defined and equals \<open>c\<close>. So it is at every point of a run
  without such a call, and of the table that is returned.
\<close>

theorem symmetry_without_reverse_conflict:
  assumes "solve_start gens subgens rels = Inr c0" "reverse_safe n c0"
  shows "(case table_of ((step ^^ n) c0) of Some cs \<Rightarrow> symmetric cs | None \<Rightarrow> True)
       \<and> ((step ^^ n) c0 = Returned cs \<longrightarrow>
            solve gens subgens rels = Some (Inr cs) \<and> symmetric cs)"
proof -
  have 1: "case table_of ((step ^^ n) c0) of Some cs \<Rightarrow> symmetric cs | None \<Rightarrow> True"
    using assms(2) solve_start_table [OF assms(1)] symmetric_Cosets_init
    by (rule symmetric_run)
  show ?thesis using 1 solve_returned [OF assms(1)] by auto
qed


text \<open>
  The run of the dihedral example makes no overwriting call in its 70 steps.
\<close>

theorem symmetry_without_reverse_conflict_witness:
  "solve_start [''a'', ''b''] [''a''] (map chars [''ababababab'', ''aa'', ''bb'']) =
     Inr (Subgens [[0, 1, 0, 1, 0, 1, 0, 1, 0, 1], [0, 0], [1, 1]]
            (map (\<lambda>w. Row_init w 0) [[0, 1, 0, 1, 0, 1, 0, 1, 0, 1], [0, 0], [1, 1]])
            (Cosets_init 2 [''a'', ''b'']) [0])
   \<and> reverse_safe 70
         (Subgens [[0, 1, 0, 1, 0, 1, 0, 1, 0, 1], [0, 0], [1, 1]]
            (map (\<lambda>w. Row_init w 0) [[0, 1, 0, 1, 0, 1, 0, 1, 0, 1], [0, 0], [1, 1]])
            (Cosets_init 2 [''a'', ''b'']) [0])
   \<and> (step ^^ 70)
         (Subgens [[0, 1, 0, 1, 0, 1, 0, 1, 0, 1], [0, 0], [1, 1]]
            (map (\<lambda>w. Row_init w 0) [[0, 1, 0, 1, 0, 1, 0, 1, 0, 1], [0, 0], [1, 1]])
            (Cosets_init 2 [''a'', ''b'']) [0])
       = Returned \<lparr>names = [''a'', ''b''], n_gens = 2,
                    cosets = [[Some 0, Some 1], [Some 2, Some 0], [Some 1, Some 3],
                              [Some 4, Some 2], [Some 3, Some 4]],
                    rcosets = [[Some 0, Some 1], [Some 2, Some 0], [Some 1, Some 3],
                               [Some 4, Some 2], [Some 3, Some 4]]\<rparr>
   \<and> symmetric \<lparr>names = [''a'', ''b''], n_gens = 2,
                   cosets = [[Some 0, Some 1], [Some 2, Some 0], [Some 1, Some 3],
                             [Some 4, Some 2], [Some 3, Some 4]],
                   rcosets = [[Some 0, Some 1], [Some 2, Some 0], [Some 1, Some 3],
                              [Some 4, Some 2], [Some 3, Some 4]]\<rparr>"
proof -
  let ?c = "Subgens [[0, 1, 0, 1, 0, 1, 0, 1, 0, 1], [0, 0], [1, 1]]
            (map (\<lambda>w. Row_init w 0) [[0, 1, 0, 1, 0, 1, 0, 1, 0, 1], [0, 0], [1, 1]])
            (Cosets_init 2 [''a'', ''b'']) [0] :: string config"
  let ?t = "\<lparr>names = [''a'', ''b''], n_gens = 2,
                    cosets = [[Some 0, Some 1], [Some 2, Some 0], [Some 1, Some 3],
                              [Some 4, Some 2], [Some 3, Some 4]],
                    rcosets = [[Some 0, Some 1], [Some 2, Some 0], [Some 1, Some 3],
                               [Some 4, Some 2], [Some 3, Some 4]]\<rparr> :: string Cosets"
  have s: "solve_start [''a'', ''b''] [''a''] (map chars [''ababababab'', ''aa'', ''bb''])
             = Inr ?c"
    by code_simp
  have f: "reverse_safe 70 ?c" by code_simp
  have r: "(step ^^ 70) ?c = Returned ?t" by code_simp
  from symmetry_without_reverse_conflict [OF s f, of ?t] r
  have "symmetric ?t" by blast
  then show ?thesis using s f r by blast
qed

text \<open>
  The relators \<open>aa\<close> and \<open>aaa\<close> over the one generator \<open>a\<close>: the row of \<open>aaa\<close> at coset 0
  calls \<open>set(0, a, 0)\<close> when \<open>reverse[0][a]\<close> is 1. In the returned table
  \<open>forward[1][a] = 0\<close> and \<open>reverse[0][a] = 0\<close>.
\<close>

theorem symmetry_broken_by_overwrite:
  "solve [''a''] [] [[''a'', ''a''], [''a'', ''a'', ''a'']] =
     Some (Inr \<lparr>names = [''a''], n_gens = 1, cosets = [[Some 0], [Some 0]],
                 rcosets = [[Some 0], [Some 0]]\<rparr>)
   \<and> \<not> symmetric \<lparr>names = [''a''], n_gens = 1, cosets = [[Some 0], [Some 0]],
                     rcosets = [[Some 0], [Some 0]]\<rparr>"
  by code_simp

lemma follow_set_coset:
  assumes s: "set_coset cs c g t = Inr cs'" and no: "\<not> overwrites_forward cs c g t"
  shows "follow cs x w = Some y \<Longrightarrow> follow cs' x w = Some y"
proof (induction w arbitrary: x)
  case Nil
  then show ?case by simp
next
  case (Cons h w)
  from Cons.prems obtain z where z: "get cs x h = Inr (Some z)" "follow cs z w = Some y"
    by (auto split: sum.splits option.splits)
  have "get cs' x h = Inr (Some z)"
  proof (cases "x = c \<and> h = g")
    case True
    then have "z = t" using z(1) no by (simp add: overwrites_forward_def)
    then show ?thesis using True by (simp add: get_set_coset [OF s])
  next
    case False
    then show ?thesis using z(1) by (auto simp: get_set_coset [OF s])
  qed
  then show ?case using Cons.IH [OF z(2)] by simp
qed

lemma follow_add_row:
  "follow cs x w = Some y \<Longrightarrow> follow (add_row cs) x w = Some y"
proof (induction w arbitrary: x)
  case Nil
  then show ?case by simp
next
  case (Cons h w)
  from Cons.prems obtain z where z: "get cs x h = Inr (Some z)" "follow cs z w = Some y"
    by (auto split: sum.splits option.splits)
  have "x \<noteq> length (cosets cs)" using get_Inr_bound [OF z(1)] by simp
  then have "get (add_row cs) x h = Inr (Some z)" using z(1) by (simp add: get_add_row)
  then show ?case using Cons.IH [OF z(2)] by simp
qed

lemma all_reachable_set_coset:
  assumes "all_reachable cs" "set_coset cs c g t = Inr cs'" "\<not> overwrites_forward cs c g t"
  shows "all_reachable cs'"
  unfolding all_reachable_def reachable_def
proof
  fix x assume "x \<in> {0..<length (cosets cs')}"
  then have "x \<in> {0..<length (cosets cs)}" using set_coset_sizes [OF assms(2)] by simp
  then obtain w where "follow cs 0 w = Some x"
    using assms(1) unfolding all_reachable_def reachable_def by blast
  then have "follow cs' 0 w = Some x" by (rule follow_set_coset [OF assms(2,3)])
  then show "\<exists>w. follow cs' 0 w = Some x" by blast
qed

lemma all_reachable_add_coset:
  assumes r: "all_reachable cs" and u: "get cs i g = Inr None"
    and s: "set_coset (add_row cs) i g (length (cosets cs)) = Inr cs'"
  shows "all_reachable cs'"
  unfolding all_reachable_def reachable_def
proof
  fix x assume x: "x \<in> {0..<length (cosets cs')}"
  have len: "length (cosets cs') = Suc (length (cosets cs))"
    using set_coset_sizes(1) [OF s] by (simp add: add_row_def)
  have i: "i < length (cosets cs)" using u by (rule get_Inr_bound)
  have no: "\<not> overwrites_forward (add_row cs) i g (length (cosets cs))"
    using u i by (simp add: overwrites_forward_def get_add_row)
  have old: "\<And>y. y < length (cosets cs) \<Longrightarrow> \<exists>w. follow cs' 0 w = Some y"
  proof -
    fix y assume "y < length (cosets cs)"
    then obtain w where "follow cs 0 w = Some y"
      using r unfolding all_reachable_def reachable_def by fastforce
    then have "follow (add_row cs) 0 w = Some y" by (rule follow_add_row)
    then have "follow cs' 0 w = Some y" by (rule follow_set_coset [OF s no])
    then show "\<exists>w. follow cs' 0 w = Some y" by blast
  qed
  show "\<exists>w. follow cs' 0 w = Some x"
  proof (cases "x < length (cosets cs)")
    case True
    then show ?thesis by (rule old)
  next
    case False
    then have xk: "x = length (cosets cs)" using x len by simp
    obtain w where w: "follow cs' 0 w = Some i" using old [OF i] by blast
    have "get cs' i g = Inr (Some (length (cosets cs)))" by (simp add: get_set_coset [OF s])
    then have "follow cs' 0 (w @ [g]) = Some x" using w xk by (simp add: follow_append)
    then show ?thesis by blast
  qed
qed

lemma all_reachable_Cosets_init: "all_reachable (Cosets_init n nms)"
proof -
  have "follow (Cosets_init n nms) 0 [] = Some 0" by simp
  then have "reachable (Cosets_init n nms) 0" unfolding reachable_def by blast
  then show ?thesis by (simp add: all_reachable_def Cosets_init_def add_row_def)
qed

lemma all_reachable_step:
  assumes "table_of c = Some cs" "all_reachable cs" "\<not> forward_conflict c"
    "table_of (step c) = Some cs'"
  shows "all_reachable cs'"
  using step_table_change [OF assms(1,4)]
proof (elim disjE exE conjE)
  assume "cs' = cs"
  then show ?thesis using assms(2) by simp
next
  fix x g t assume n: "next_set c = Some (cs, x, g, t)" and s: "set_coset cs x g t = Inr cs'"
  have "\<not> overwrites_forward cs x g t" using assms(3) n by (simp add: forward_conflict_def)
  then show ?thesis using assms(2) s by (intro all_reachable_set_coset [of cs x g t cs'])
next
  fix x g assume "get cs x g = Inr None"
    and "set_coset (add_row cs) x g (length (cosets cs)) = Inr cs'"
  then show ?thesis using assms(2) by (intro all_reachable_add_coset [of cs x g cs'])
qed

lemma all_reachable_run:
  "forward_safe n c \<Longrightarrow> table_of c = Some cs \<Longrightarrow> all_reachable cs \<Longrightarrow>
     (case table_of ((step ^^ n) c) of Some cs' \<Rightarrow> all_reachable cs' | None \<Rightarrow> True)"
proof (induction n arbitrary: c cs)
  case 0
  then show ?case by simp
next
  case (Suc n)
  have sw: "(step ^^ Suc n) c = (step ^^ n) (step c)" by (simp add: funpow_swap1)
  show ?case
  proof (cases "table_of (step c)")
    case None
    then show ?thesis using table_of_None_step [OF None, of n] sw by simp
  next
    case (Some cs1)
    have "all_reachable cs1"
      using Suc.prems Some by (intro all_reachable_step [of c cs cs1]) simp_all
    then show ?thesis using Suc.IH [OF _ Some] Suc.prems(1) sw by simp
  qed
qed

lemma add_coset_edge:
  assumes "add_coset cs = Inr (cs', True)"
  shows "(\<exists>i g. i < length (cosets cs) \<and> get cs i g = Inr None \<and>
            get cs' i g = Inr (Some (length (cosets cs))))
         \<and> length (cosets cs') = Suc (length (cosets cs))"
proof (cases "first_open 0 (cosets cs)")
  case None
  then show ?thesis using assms by (simp add: add_coset_def)
next
  case (Some p)
  obtain i gen where p: "p = (i, gen)" by (cases p)
  from first_open_Some [OF Some [unfolded p]]
  have u: "get cs i gen = Inr None" and i: "i < length (cosets cs)" by (simp_all add: get_def)
  have s: "set_coset (add_row cs) i gen (length (cosets cs)) = Inr cs'"
    using assms Some p
    by (cases "set_coset (add_row cs) i gen (length (cosets cs))") (auto simp: add_coset_def)
  have "get cs' i gen = Inr (Some (length (cosets cs)))" by (simp add: get_set_coset [OF s])
  moreover have "length (cosets cs') = Suc (length (cosets cs))"
    using set_coset_sizes(1) [OF s] by (simp add: add_row_def)
  ultimately show ?thesis using u i by blast
qed

text \<open>
  C10. In a run whose first \<open>n\<close> steps make no \<open>set\<close> call that replaces a defined forward
  entry by another coset, every coset of the table after these steps is reachable from
  coset 0 along defined forward entries; so it is of the table that is returned. The
  reason is the edge that \<open>add_coset\<close> writes: when it makes the coset \<open>k\<close> it defines an
  entry \<open>forward[i][g] = k\<close> of an older coset \<open>i < k\<close> that was undefined.
\<close>

theorem cosets_reachable_without_forward_conflict:
  assumes "solve_start gens subgens rels = Inr c0" "forward_safe n c0"
  shows "(case table_of ((step ^^ n) c0) of Some cs \<Rightarrow> all_reachable cs | None \<Rightarrow> True)
       \<and> ((step ^^ n) c0 = Returned cs \<longrightarrow>
            solve gens subgens rels = Some (Inr cs) \<and> all_reachable cs)
       \<and> (add_coset t = Inr (t', True) \<longrightarrow>
            (\<exists>i g. i < length (cosets t) \<and> get t i g = Inr None \<and>
                   get t' i g = Inr (Some (length (cosets t))))
            \<and> length (cosets t') = Suc (length (cosets t)))"
proof -
  have 1: "case table_of ((step ^^ n) c0) of Some cs \<Rightarrow> all_reachable cs | None \<Rightarrow> True"
    using assms(2) solve_start_table [OF assms(1)] all_reachable_Cosets_init
    by (rule all_reachable_run)
  have 2: "(step ^^ n) c0 = Returned cs \<longrightarrow>
             solve gens subgens rels = Some (Inr cs) \<and> all_reachable cs"
    using 1 solve_returned [OF assms(1)] by auto
  have 3: "add_coset t = Inr (t', True) \<longrightarrow>
            (\<exists>i g. i < length (cosets t) \<and> get t i g = Inr None \<and>
                   get t' i g = Inr (Some (length (cosets t))))
            \<and> length (cosets t') = Suc (length (cosets t))"
    using add_coset_edge by blast
  show ?thesis using 1 2 3 by blast
qed

theorem cosets_reachable_without_forward_conflict_witness:
  "solve_start [''a'', ''b''] [''a''] (map chars [''ababababab'', ''aa'', ''bb'']) =
     Inr (Subgens [[0, 1, 0, 1, 0, 1, 0, 1, 0, 1], [0, 0], [1, 1]]
            (map (\<lambda>w. Row_init w 0) [[0, 1, 0, 1, 0, 1, 0, 1, 0, 1], [0, 0], [1, 1]])
            (Cosets_init 2 [''a'', ''b'']) [0])
   \<and> forward_safe 70
         (Subgens [[0, 1, 0, 1, 0, 1, 0, 1, 0, 1], [0, 0], [1, 1]]
            (map (\<lambda>w. Row_init w 0) [[0, 1, 0, 1, 0, 1, 0, 1, 0, 1], [0, 0], [1, 1]])
            (Cosets_init 2 [''a'', ''b'']) [0])
   \<and> (step ^^ 70)
         (Subgens [[0, 1, 0, 1, 0, 1, 0, 1, 0, 1], [0, 0], [1, 1]]
            (map (\<lambda>w. Row_init w 0) [[0, 1, 0, 1, 0, 1, 0, 1, 0, 1], [0, 0], [1, 1]])
            (Cosets_init 2 [''a'', ''b'']) [0])
       = Returned \<lparr>names = [''a'', ''b''], n_gens = 2,
                    cosets = [[Some 0, Some 1], [Some 2, Some 0], [Some 1, Some 3],
                              [Some 4, Some 2], [Some 3, Some 4]],
                    rcosets = [[Some 0, Some 1], [Some 2, Some 0], [Some 1, Some 3],
                               [Some 4, Some 2], [Some 3, Some 4]]\<rparr>
   \<and> solve [''a'', ''b''] [''a''] (map chars [''ababababab'', ''aa'', ''bb''])
       = Some (Inr \<lparr>names = [''a'', ''b''], n_gens = 2,
                    cosets = [[Some 0, Some 1], [Some 2, Some 0], [Some 1, Some 3],
                              [Some 4, Some 2], [Some 3, Some 4]],
                    rcosets = [[Some 0, Some 1], [Some 2, Some 0], [Some 1, Some 3],
                               [Some 4, Some 2], [Some 3, Some 4]]\<rparr>)
   \<and> all_reachable \<lparr>names = [''a'', ''b''], n_gens = 2,
                    cosets = [[Some 0, Some 1], [Some 2, Some 0], [Some 1, Some 3],
                              [Some 4, Some 2], [Some 3, Some 4]],
                    rcosets = [[Some 0, Some 1], [Some 2, Some 0], [Some 1, Some 3],
                               [Some 4, Some 2], [Some 3, Some 4]]\<rparr>
   \<and> add_coset (Cosets_init 2 [''a'', ''b''])
       = Inr (\<lparr>names = [''a'', ''b''], n_gens = 2, cosets = [[Some 1, None], [None, None]],
                rcosets = [[None, None], [Some 0, None]]\<rparr>, True)
   \<and> length (cosets \<lparr>names = [''a'', ''b''], n_gens = 2,
                       cosets = [[Some 1, None], [None, None]],
                       rcosets = [[None, None], [Some 0, None]]\<rparr>)
       = Suc (length (cosets (Cosets_init 2 [''a'', ''b''])))"
proof -
  let ?c = "(Subgens [[0, 1, 0, 1, 0, 1, 0, 1, 0, 1], [0, 0], [1, 1]]
            (map (\<lambda>w. Row_init w 0) [[0, 1, 0, 1, 0, 1, 0, 1, 0, 1], [0, 0], [1, 1]])
            (Cosets_init 2 [''a'', ''b'']) [0]) :: string config"
  let ?t = "\<lparr>names = [''a'', ''b''], n_gens = 2,
                    cosets = [[Some 0, Some 1], [Some 2, Some 0], [Some 1, Some 3],
                              [Some 4, Some 2], [Some 3, Some 4]],
                    rcosets = [[Some 0, Some 1], [Some 2, Some 0], [Some 1, Some 3],
                               [Some 4, Some 2], [Some 3, Some 4]]\<rparr> :: string Cosets"
  let ?t1 = "\<lparr>names = [''a'', ''b''], n_gens = 2, cosets = [[Some 1, None], [None, None]],
                rcosets = [[None, None], [Some 0, None]]\<rparr> :: string Cosets"
  have s: "solve_start [''a'', ''b''] [''a''] (map chars [''ababababab'', ''aa'', ''bb''])
             = Inr ?c"
    by code_simp
  have f: "forward_safe 70 ?c" by code_simp
  have r: "(step ^^ 70) ?c = Returned ?t" by code_simp
  have a: "add_coset (Cosets_init 2 [''a'', ''b'']) = Inr (?t1, True)" by code_simp
  from cosets_reachable_without_forward_conflict
         [OF s f, where cs = ?t and t = "Cosets_init 2 [''a'', ''b'']" and t' = ?t1] r a
  have "solve [''a'', ''b''] [''a''] (map chars [''ababababab'', ''aa'', ''bb''])
          = Some (Inr ?t)"
    "all_reachable ?t"
    "length (cosets ?t1) = Suc (length (cosets (Cosets_init 2 [''a'', ''b''])))"
    by blast+
  then show ?thesis using s f r a by blast
qed

subsection \<open>The relators of coxeter\<close>

lemma permutations2_iff:
  "(x, y) \<in> set (permutations2 xs) \<longleftrightarrow>
     (\<exists>i j. i < length xs \<and> j < length xs \<and> i \<noteq> j \<and> x = xs ! i \<and> y = xs ! j)"
proof
  assume "(x, y) \<in> set (permutations2 xs)"
  then obtain i where i: "i < length xs"
    and "(x, y) \<in> set (map (\<lambda>j. (xs ! i, xs ! j)) (filter (\<lambda>j. j \<noteq> i) [0..<length xs]))"
    unfolding permutations2_def by auto
  then obtain j where "j < length xs" "j \<noteq> i" "x = xs ! i" "y = xs ! j" by auto
  then show "\<exists>i j. i < length xs \<and> j < length xs \<and> i \<noteq> j \<and> x = xs ! i \<and> y = xs ! j"
    using i by metis
next
  assume "\<exists>i j. i < length xs \<and> j < length xs \<and> i \<noteq> j \<and> x = xs ! i \<and> y = xs ! j"
  then obtain i j where ij: "i < length xs" "j < length xs" "i \<noteq> j" "x = xs ! i" "y = xs ! j"
    by blast
  then have "(x, y) \<in> set (map (\<lambda>j. (xs ! i, xs ! j)) (filter (\<lambda>j. j \<noteq> i) [0..<length xs]))"
    by auto
  then show "(x, y) \<in> set (permutations2 xs)"
    unfolding permutations2_def using ij(1) by auto
qed

lemma all_links_distinct:
  assumes "distinct gens"
  shows "l \<in> set (map (\<lambda>(g, h). {g, h}) (permutations2 gens)) \<longleftrightarrow>
           (\<exists>g h. l = {g, h} \<and> g \<in> set gens \<and> h \<in> set gens \<and> g \<noteq> h)"
proof
  assume "l \<in> set (map (\<lambda>(g, h). {g, h}) (permutations2 gens))"
  then obtain x y where xy: "(x, y) \<in> set (permutations2 gens)" "l = {x, y}" by auto
  then obtain i j where ij: "i < length gens" "j < length gens" "i \<noteq> j"
    "x = gens ! i" "y = gens ! j"
    unfolding permutations2_iff by blast
  then have "x \<noteq> y" using assms by (simp add: nth_eq_iff_index_eq)
  moreover have "x \<in> set gens" "y \<in> set gens" using ij by simp_all
  ultimately show "\<exists>g h. l = {g, h} \<and> g \<in> set gens \<and> h \<in> set gens \<and> g \<noteq> h"
    using xy(2) by blast
next
  assume "\<exists>g h. l = {g, h} \<and> g \<in> set gens \<and> h \<in> set gens \<and> g \<noteq> h"
  then obtain g h where gh: "l = {g, h}" "g \<in> set gens" "h \<in> set gens" "g \<noteq> h" by blast
  then obtain i j where ij: "i < length gens" "gens ! i = g" "j < length gens" "gens ! j = h"
    unfolding in_set_conv_nth by blast
  then have "i \<noteq> j" using gh(4) by auto
  then have "(g, h) \<in> set (permutations2 gens)"
    unfolding permutations2_iff using ij by blast
  then have "(\<lambda>(g, h). {g, h}) (g, h) \<in> set (map (\<lambda>(g, h). {g, h}) (permutations2 gens))"
    unfolding set_map by (rule imageI)
  then show "l \<in> set (map (\<lambda>(g, h). {g, h}) (permutations2 gens))"
    using gh(1) by simp
qed

lemma missing_links_iff:
  assumes "distinct gens"
  shows "l \<in> missing_links gens rels \<longleftrightarrow>
           (\<exists>g h. l = {g, h} \<and> g \<in> set gens \<and> h \<in> set gens \<and> g \<noteq> h \<and> \<not> given rels g h)"
proof -
  have "l \<in> missing_links gens rels \<longleftrightarrow>
          l \<in> set (map (\<lambda>(g, h). {g, h}) (permutations2 gens)) \<and>
          l \<notin> set (map (\<lambda>r. set (chars r)) rels)"
    by (simp add: missing_links_def Let_def)
  also have "\<dots> \<longleftrightarrow> (\<exists>g h. l = {g, h} \<and> g \<in> set gens \<and> h \<in> set gens \<and> g \<noteq> h)
                    \<and> \<not> (\<exists>r \<in> set rels. set (chars r) = l)"
    unfolding all_links_distinct [OF assms] by auto
  also have "\<dots> \<longleftrightarrow>
      (\<exists>g h. l = {g, h} \<and> g \<in> set gens \<and> h \<in> set gens \<and> g \<noteq> h \<and> \<not> given rels g h)"
    unfolding given_def by metis
  finally show ?thesis .
qed

lemma missing_links_unpaired:
  assumes "distinct gens"
  shows "missing_links gens rels = unpaired gens rels"
proof (rule set_eqI)
  fix l
  show "l \<in> missing_links gens rels \<longleftrightarrow> l \<in> unpaired gens rels"
    unfolding missing_links_iff [OF assms] unpaired_def by blast
qed

lemma two_element_list:
  assumes "distinct xs" "set xs = {g, h}" "g \<noteq> h"
  shows "xs = [g, h] \<or> xs = [h, g]"
proof -
  have "length xs = 2"
    using assms distinct_card [OF assms(1)] by simp
  then obtain x y where xy: "xs = [x, y]"
    by (cases xs; cases "tl xs"; cases "tl (tl xs)") auto
  then show ?thesis using assms by (auto simp: doubleton_eq_iff)
qed

lemma filter_eq_distinct:
  "distinct xs \<Longrightarrow> x \<in> set xs \<Longrightarrow> length (filter (\<lambda>y. y = x) xs) = 1"
  by (induction xs) (auto simp: filter_empty_conv)


lemma given_commute: "given rels g h \<longleftrightarrow> given rels h g"
  by (simp add: given_def insert_commute)

lemma link_pair:
  assumes "distinct gens" "l \<in> missing_links gens rels" "iterates link_order l"
  shows "\<exists>x y. link_order l = [x, y] \<and> l = {x, y} \<and> x \<in> set gens \<and> y \<in> set gens \<and>
           x \<noteq> y \<and> \<not> given rels x y"
proof -
  from assms(1,2) obtain g h where
    gh: "l = {g, h}" "g \<in> set gens" "h \<in> set gens" "g \<noteq> h" "\<not> given rels g h"
    unfolding missing_links_iff [OF assms(1)] by blast
  have "distinct (link_order l)" "set (link_order l) = {g, h}"
    using assms(3) gh(1) by (simp_all add: iterates_def)
  then have "link_order l = [g, h] \<or> link_order l = [h, g]"
    using gh(4) by (rule two_element_list)
  then show ?thesis
  proof
    assume "link_order l = [g, h]"
    then show ?thesis using gh by blast
  next
    assume "link_order l = [h, g]"
    moreover have "l = {h, g}" using gh(1) by (simp add: insert_commute)
    moreover have "\<not> given rels h g" using gh(5) given_commute by blast
    ultimately show ?thesis using gh(2,3,4) by blast
  qed
qed

lemma link_as_pair:
  assumes "distinct gens" "l \<in> missing_links gens rels" "iterates link_order l"
  shows "case link_as_pair link_order l of (x, y) \<Rightarrow>
           concat (link_order l) @ concat (link_order l) = x @ y @ x @ y \<and> l = {x, y} \<and>
           x \<in> set gens \<and> y \<in> set gens \<and> x \<noteq> y \<and> \<not> given rels x y"
proof -
  from link_pair [OF assms] obtain x y where
    "link_order l = [x, y]" "l = {x, y}" "x \<in> set gens" "y \<in> set gens" "x \<noteq> y"
    "\<not> given rels x y"
    by blast
  then show ?thesis by (simp add: link_as_pair_def)
qed

text \<open>
  C5, as amended. For distinct generators, and whatever order Python iterates the sets
  in, \<open>coxeter(gens, subgens, rels)\<close> is \<open>solve\<close> on \<open>rels\<close> extended with one commuting
  relator \<open>ghgh\<close> for every unordered pair of generators not already given a relator
  (\<open>pairs\<close> lists each such pair once, in one of its two orders) and then with \<open>gg\<close> for
  every generator, paired or not.
\<close>

theorem coxeter_solves_extended:
  assumes "distinct gens"
    and "iterates links_order (missing_links gens rels)"
    and "\<forall>l \<in> missing_links gens rels. iterates link_order l"
  shows "\<exists>pairs.
           (\<forall>(x, y) \<in> set pairs. x \<in> set gens \<and> y \<in> set gens \<and> x \<noteq> y \<and> \<not> given rels x y)
         \<and> (\<forall>g h. g \<in> set gens \<and> h \<in> set gens \<and> g \<noteq> h \<and> \<not> given rels g h \<longrightarrow>
                length (filter (\<lambda>(x, y). {x, y} = {g, h}) pairs) = 1)
         \<and> coxeter links_order link_order gens subgens rels =
             solve gens subgens
               (map chars (rels @ map (\<lambda>(g, h). g @ h @ g @ h) pairs @ map (\<lambda>g. g @ g) gens))"
proof -
  let ?M = "missing_links gens rels"
  let ?ls = "links_order ?M"
  let ?pairs = "map (link_as_pair link_order) ?ls"
  have ls: "set ?ls = ?M" "distinct ?ls" using assms(2) by (simp_all add: iterates_def)
  have each: "\<And>l. l \<in> set ?ls \<Longrightarrow>
      (case link_as_pair link_order l of (x, y) \<Rightarrow>
           concat (link_order l) @ concat (link_order l) = x @ y @ x @ y \<and> l = {x, y} \<and>
           x \<in> set gens \<and> y \<in> set gens \<and> x \<noteq> y \<and> \<not> given rels x y)"
    using assms(1,3) ls(1) by (intro link_as_pair) auto
  have 1: "\<forall>(x, y) \<in> set ?pairs. x \<in> set gens \<and> y \<in> set gens \<and> x \<noteq> y \<and> \<not> given rels x y"
  proof
    fix p assume "p \<in> set ?pairs"
    then obtain l where "l \<in> set ?ls" "p = link_as_pair link_order l" by auto
    then show "case p of (x, y) \<Rightarrow>
                 x \<in> set gens \<and> y \<in> set gens \<and> x \<noteq> y \<and> \<not> given rels x y"
      using each [of l] by (cases "link_as_pair link_order l") simp
  qed
  have relinked: "map (\<lambda>(x, y). {x, y}) ?pairs = ?ls"
  proof -
    have "map ((\<lambda>(x, y). {x, y}) \<circ> link_as_pair link_order) ?ls = map (\<lambda>l. l) ?ls"
    proof (rule map_cong [OF refl])
      fix l assume "l \<in> set ?ls"
      from each [OF this] show "((\<lambda>(x, y). {x, y}) \<circ> link_as_pair link_order) l = l"
        by (cases "link_as_pair link_order l") simp
    qed
    then show ?thesis by simp
  qed
  have 2: "\<forall>g h. g \<in> set gens \<and> h \<in> set gens \<and> g \<noteq> h \<and> \<not> given rels g h \<longrightarrow>
                length (filter (\<lambda>(x, y). {x, y} = {g, h}) ?pairs) = 1"
  proof (intro allI impI)
    fix g h assume "g \<in> set gens \<and> h \<in> set gens \<and> g \<noteq> h \<and> \<not> given rels g h"
    then have "{g, h} \<in> ?M" unfolding missing_links_iff [OF assms(1)] by blast
    then have "{g, h} \<in> set ?ls" using ls(1) by simp
    then have one: "length (filter (\<lambda>l. l = {g, h}) ?ls) = 1"
      using ls(2) by (intro filter_eq_distinct)
    have "length (filter (\<lambda>(x, y). {x, y} = {g, h}) ?pairs)
            = length (map (\<lambda>(x, y). {x, y}) (filter (\<lambda>(x, y). {x, y} = {g, h}) ?pairs))"
      by simp
    also have "\<dots> = length (filter (\<lambda>l. l = {g, h}) (map (\<lambda>(x, y). {x, y}) ?pairs))"
      unfolding filter_map by (simp add: comp_def case_prod_unfold)
    also have "\<dots> = 1" using one unfolding relinked .
    finally show "length (filter (\<lambda>(x, y). {x, y} = {g, h}) ?pairs) = 1" .
  qed
  have "map (\<lambda>link. concat (link_order link) @ concat (link_order link)) ?ls
          = map ((\<lambda>(g, h). g @ h @ g @ h) \<circ> link_as_pair link_order) ?ls"
  proof (rule map_cong [OF refl])
    fix l assume "l \<in> set ?ls"
    from each [OF this]
    show "concat (link_order l) @ concat (link_order l)
            = ((\<lambda>(g, h). g @ h @ g @ h) \<circ> link_as_pair link_order) l"
      by (cases "link_as_pair link_order l") force
  qed
  then have "coxeter_rels links_order link_order gens rels
          = rels @ map (\<lambda>(g, h). g @ h @ g @ h) ?pairs @ map (\<lambda>g. g @ g) gens"
    by (simp add: coxeter_rels_def)
  then have 3: "coxeter links_order link_order gens subgens rels =
             solve gens subgens
               (map chars (rels @ map (\<lambda>(g, h). g @ h @ g @ h) ?pairs @ map (\<lambda>g. g @ g) gens))"
    by (simp only: coxeter_def)
  show ?thesis using 1 2 3 by blast
qed


lemma missing_links_ab_none: "missing_links [''a'', ''b''] [] = {{''a'', ''b''}}"
  by (auto simp: missing_links_def permutations2_def Let_def)

theorem coxeter_solves_extended_witness:
  "distinct [''a'', ''b'']
   \<and> missing_links [''a'', ''b''] [] = {{''a'', ''b''}}
   \<and> iterates (\<lambda>S. [{''a'', ''b''}]) {{''a'', ''b''}}
   \<and> iterates (\<lambda>l. [''a'', ''b'']) {''a'', ''b''}
   \<and> (\<exists>pairs.
         (\<forall>(x, y) \<in> set pairs. x \<in> set [''a'', ''b''] \<and> y \<in> set [''a'', ''b''] \<and> x \<noteq> y
                                 \<and> \<not> given [] x y)
       \<and> (\<forall>g h. g \<in> set [''a'', ''b''] \<and> h \<in> set [''a'', ''b''] \<and> g \<noteq> h \<and> \<not> given [] g h \<longrightarrow>
              length (filter (\<lambda>(x, y). {x, y} = {g, h}) pairs) = 1)
       \<and> coxeter (\<lambda>S. [{''a'', ''b''}]) (\<lambda>l. [''a'', ''b'']) [''a'', ''b''] [] [] =
           solve [''a'', ''b''] []
             (map chars ([] @ map (\<lambda>(g, h). g @ h @ g @ h) pairs
                            @ map (\<lambda>g. g @ g) [''a'', ''b''])))"
proof -
  have d: "distinct [''a'', ''b'']" by simp
  have m: "missing_links [''a'', ''b''] [] = {{''a'', ''b''}}" by (rule missing_links_ab_none)
  have i1: "iterates (\<lambda>S. [{''a'', ''b''}]) {{''a'', ''b''}}" by (simp add: iterates_def)
  have i2: "iterates (\<lambda>l. [''a'', ''b'']) {''a'', ''b''}" by (simp add: iterates_def)
  have h2: "iterates (\<lambda>S. [{''a'', ''b''}]) (missing_links [''a'', ''b''] [])"
    using i1 m by simp
  have h3: "\<forall>l \<in> missing_links [''a'', ''b''] []. iterates (\<lambda>l. [''a'', ''b'']) l"
    using i2 m by simp
  from coxeter_solves_extended [OF d h2 h3, of "[]"] show ?thesis
    using d m i1 i2 by blast
qed

text \<open>
  The number of cosets never shrinks in a run, so a table returned after a table of seven
  cosets was reached has at least seven.
\<close>

lemma step_count_mono:
  assumes "table_of c = Some t" "table_of (step c) = Some t'"
  shows "length (cosets t) \<le> length (cosets t')"
  using step_table_change [OF assms]
proof (elim disjE exE conjE)
  assume "t' = t"
  then show ?thesis by simp
next
  fix x g u assume "set_coset t x g u = Inr t'"
  then show ?thesis by (simp add: set_coset_sizes)
next
  fix x g assume "set_coset (add_row t) x g (length (cosets t)) = Inr t'"
  then have "length (cosets t') = length (cosets (add_row t))" by (rule set_coset_sizes)
  then show ?thesis by (simp add: add_row_def)
qed

lemma funpow_count_mono:
  "table_of c = Some t \<Longrightarrow> table_of ((step ^^ n) c) = Some t' \<Longrightarrow>
     length (cosets t) \<le> length (cosets t')"
proof (induction n arbitrary: c t)
  case 0
  then show ?case by simp
next
  case (Suc n)
  have sw: "(step ^^ Suc n) c = (step ^^ n) (step c)" by (simp add: funpow_swap1)
  show ?case
  proof (cases "table_of (step c)")
    case None
    then show ?thesis using table_of_None_step [OF None, of n] sw Suc.prems(2) by simp
  next
    case (Some t1)
    have "length (cosets t) \<le> length (cosets t1)"
      using Suc.prems(1) Some by (rule step_count_mono)
    moreover have "length (cosets t1) \<le> length (cosets t')"
      using Suc.IH [OF Some] Suc.prems(2) sw by simp
    ultimately show ?thesis by simp
  qed
qed

lemma run_count_mono:
  assumes "run c = Some (Inr cs)" "table_of c = Some t"
  shows "length (cosets t) \<le> length (cosets cs)"
proof -
  from run_Some_funpow [OF assms(1)] obtain n where
    "outcome ((step ^^ n) c) = Some (Inr cs)" by blast
  then have "(step ^^ n) c = Returned cs" by (rule outcome_Inr)
  then have "table_of ((step ^^ n) c) = Some cs" by simp
  with assms(2) show ?thesis by (rule funpow_count_mono)
qed

lemma coxeter_ababab:
  "coxeter (\<lambda>S. []) (\<lambda>l. []) [''a'', ''b''] [] [''ababab''] =
     Some (Inr \<lparr>names = [''a'', ''b''], n_gens = 2,
             cosets = [[Some 1, Some 2], [Some 0, Some 3], [Some 4, Some 0],
                       [Some 5, Some 1], [Some 2, Some 5], [Some 3, Some 4]],
             rcosets = [[Some 1, Some 2], [Some 0, Some 3], [Some 4, Some 0],
                        [Some 5, Some 1], [Some 2, Some 5], [Some 3, Some 4]]\<rparr>)"
proof -
  have "missing_links [''a'', ''b''] [''ababab''] = {}"
    by (auto simp: missing_links_def permutations2_def chars_def Let_def)
  then have "coxeter_rels (\<lambda>S. []) (\<lambda>l. []) [''a'', ''b''] [''ababab'']
               = [''ababab'', ''aa'', ''bb'']"
    by (simp add: coxeter_rels_def)
  moreover have "solve [''a'', ''b''] [] (map chars [''ababab'', ''aa'', ''bb'']) =
     Some (Inr \<lparr>names = [''a'', ''b''], n_gens = 2,
             cosets = [[Some 1, Some 2], [Some 0, Some 3], [Some 4, Some 0],
                       [Some 5, Some 1], [Some 2, Some 5], [Some 3, Some 4]],
             rcosets = [[Some 1, Some 2], [Some 0, Some 3], [Some 4, Some 0],
                        [Some 5, Some 1], [Some 2, Some 5], [Some 3, Some 4]]\<rparr>)"
    by code_simp
  ultimately show ?thesis by (simp only: coxeter_def)
qed

lemma coxeter_spec_rels_ababab:
  "coxeter_spec_rels (\<lambda>S. []) (\<lambda>l. []) [''a'', ''b''] [''ababab''] = [''ababab'']"
proof -
  have g: "given [''ababab''] ''a'' ''b''" "given [''ababab''] ''b'' ''a''"
    by (auto simp: given_def chars_def)
  then have "already_paired [''a'', ''b''] [''ababab''] ''a''"
    "already_paired [''a'', ''b''] [''ababab''] ''b''"
    by (auto simp: already_paired_def)
  then show ?thesis by (simp add: coxeter_spec_rels_def)
qed

lemma solve_ababab_grows:
  "solve [''a'', ''b''] [] (map chars [''ababab'']) = Some (Inr cs) \<Longrightarrow> 7 \<le> length (cosets cs)"
proof -
  let ?c = "Subgens [[0, 1, 0, 1, 0, 1]] [Row_init [0, 1, 0, 1, 0, 1] 0]
              (Cosets_init 2 [''a'', ''b'']) [] :: string config"
  assume a: "solve [''a'', ''b''] [] (map chars [''ababab'']) = Some (Inr cs)"
  have s: "solve_start [''a'', ''b''] [] (map chars [''ababab'']) = Inr ?c" by code_simp
  have "map_option (\<lambda>t. length (cosets t)) (table_of ((step ^^ 40) ?c)) = Some 7"
    by code_simp
  then obtain t where t: "table_of ((step ^^ 40) ?c) = Some t" "length (cosets t) = 7"
    by auto
  have "run ((step ^^ 40) ?c) = Some (Inr cs)"
    using a s by (simp add: solve_def run_funpow)
  from run_count_mono [OF this t(1)] show ?thesis using t(2) by simp
qed

text \<open>
  \<open>coxeter(['a','b'], [], ('ababab',))\<close>: both generators are paired and their pair has a
  relator, so the specification's \<open>coxeter\<close> is \<open>solve\<close> on \<open>ababab\<close> alone, which reaches a
  seventh coset after 40 steps. The module's \<open>coxeter\<close> adds \<open>aa\<close> and \<open>bb\<close> and returns the
  six cosets of the dihedral group of order 6.
\<close>

theorem coxeter_differs_from_spec:
  "coxeter (\<lambda>S. []) (\<lambda>l. []) [''a'', ''b''] [] [''ababab'']
     \<noteq> coxeter_spec (\<lambda>S. []) (\<lambda>l. []) [''a'', ''b''] [] [''ababab'']"
proof
  assume "coxeter (\<lambda>S. []) (\<lambda>l. []) [''a'', ''b''] [] [''ababab'']
            = coxeter_spec (\<lambda>S. []) (\<lambda>l. []) [''a'', ''b''] [] [''ababab'']"
  then have "solve [''a'', ''b''] [] (map chars [''ababab'']) =
     Some (Inr \<lparr>names = [''a'', ''b''], n_gens = 2,
             cosets = [[Some 1, Some 2], [Some 0, Some 3], [Some 4, Some 0],
                       [Some 5, Some 1], [Some 2, Some 5], [Some 3, Some 4]],
             rcosets = [[Some 1, Some 2], [Some 0, Some 3], [Some 4, Some 0],
                        [Some 5, Some 1], [Some 2, Some 5], [Some 3, Some 4]]\<rparr>)"
    by (simp only: coxeter_ababab coxeter_spec_def coxeter_spec_rels_ababab)
  from solve_ababab_grows [OF this] show False by simp
qed

subsection \<open>Words of the cosets\<close>

lemma visit_cases:
  obtains (new) t where "get cs c g = Inr (Some t)" "t < length ws" "ws ! t = None"
      "visit cs c w g (ws, queue) = (ws[t := Some (w @ [g])], queue @ [t])"
  | (old) "visit cs c w g (ws, queue) = (ws, queue)"
      "\<And>t. get cs c g = Inr (Some t) \<Longrightarrow> t < length ws \<Longrightarrow> ws ! t \<noteq> None"
proof (cases "get cs c g")
  case (Inl e)
  then show ?thesis using old by (simp add: visit_def)
next
  case (Inr v)
  show ?thesis
  proof (cases v)
    case None
    then show ?thesis using old Inr by (simp add: visit_def)
  next
    case (Some t)
    show ?thesis
    proof (cases "t < length ws \<and> ws ! t = None")
      case True
      then show ?thesis using new [of t] Inr Some by (simp add: visit_def)
    next
      case False
      then show ?thesis using old Inr Some by (auto simp: visit_def)
    qed
  qed
qed

lemma visit_sound:
  assumes "sound cs ws" "follow cs 0 w = Some c"
  shows "sound cs (fst (visit cs c w g (ws, queue)))"
proof (cases rule: visit_cases [of cs c g ws w queue])
  case (new t)
  have "follow cs 0 (w @ [g]) = Some t"
    using assms(2) new(1) by (simp add: follow_append)
  then show ?thesis
    using assms(1) new(2,4) unfolding sound_def
    by (auto simp: nth_list_update split: if_splits)
next
  case old
  then show ?thesis using assms(1) by simp
qed

lemma fold_visit_sound:
  assumes "follow cs 0 w = Some c"
  shows "sound cs ws \<Longrightarrow> sound cs (fst (fold (visit cs c w) gs (ws, queue)))"
proof (induction gs arbitrary: ws queue)
  case Nil
  then show ?case by simp
next
  case (Cons g gs)
  obtain ws1 q1 where v: "visit cs c w g (ws, queue) = (ws1, q1)"
    by (cases "visit cs c w g (ws, queue)")
  have "sound cs ws1" using visit_sound [OF Cons.prems assms, of g queue] v by simp
  from Cons.IH [OF this] show ?case using v by simp
qed

lemma bfs_sound: "sound cs ws \<Longrightarrow> sound cs (bfs cs ws queue)"
proof (induction cs ws queue rule: bfs.induct)
  case (1 cs ws)
  then show ?case by simp
next
  case (2 cs ws c queue)
  show ?case
  proof (cases "if c < length ws then ws ! c else None")
    case None
    then show ?thesis using "2.IH"(1) [OF None] "2.prems" by simp
  next
    case (Some w)
    then have "c < length ws" "ws ! c = Some w" by (auto split: if_splits)
    then have "follow cs 0 w = Some c" using "2.prems" unfolding sound_def by blast
    then have "sound cs (fst (expand cs c w ws queue))"
      unfolding expand_def using "2.prems" by (rule fold_visit_sound)
    from "2.IH"(2) [OF Some this] show ?thesis using Some by simp
  qed
qed

lemma visit_length: "length (fst (visit cs c w g (ws, queue))) = length ws"
  by (cases rule: visit_cases [of cs c g ws w queue]) simp_all

lemma fold_visit_length: "length (fst (fold (visit cs c w) gs (ws, queue))) = length ws"
proof (induction gs arbitrary: ws queue)
  case Nil
  then show ?case by simp
next
  case (Cons g gs)
  obtain ws1 q1 where v: "visit cs c w g (ws, queue) = (ws1, q1)"
    by (cases "visit cs c w g (ws, queue)")
  have "length ws1 = length ws" using visit_length [of cs c w g ws queue] v by simp
  then show ?case using Cons.IH [of ws1 q1] v by simp
qed

lemma bfs_length: "length (bfs cs ws queue) = length ws"
proof (induction cs ws queue rule: bfs.induct)
  case (1 cs ws)
  then show ?case by simp
next
  case (2 cs ws c queue)
  show ?case
  proof (cases "if c < length ws then ws ! c else None")
    case None
    then show ?thesis using "2.IH"(1) [OF None] by simp
  next
    case (Some w)
    then show ?thesis
      using "2.IH"(2) [OF Some] by (simp add: expand_def fold_visit_length)
  qed
qed

lemma words_length: "length (words cs) = length (cosets cs)"
  unfolding words_def bfs_length by simp

lemma words_sound:
  assumes "c < length (cosets cs)" "words cs ! c = Some w"
  shows "follow cs 0 w = Some c"
proof -
  have "sound cs ((replicate (length (cosets cs)) None)[0 := Some []])"
    unfolding sound_def
  proof (intro allI impI)
    fix x and v :: "nat list"
    assume a: "x < length ((replicate (length (cosets cs)) None)[0 := Some []]) \<and>
               (replicate (length (cosets cs)) None)[0 := Some []] ! x = Some v"
    then have "x = 0 \<and> v = []"
      by (cases "x = 0") (auto simp: nth_list_update)
    then show "follow cs 0 v = Some x" by simp
  qed
  then have "sound cs (words cs)" unfolding words_def by (rule bfs_sound)
  then show ?thesis using assms unfolding sound_def by (simp add: words_length)
qed


lemma visit_seen_mono: "seen ws x \<Longrightarrow> seen (fst (visit cs c w g (ws, queue))) x"
proof (cases rule: visit_cases [of cs c g ws w queue])
  case (new t)
  assume "seen ws x"
  then have "x \<noteq> t" "x < length ws" "ws ! x \<noteq> None" using new(3) by (auto simp: seen_def)
  then show ?thesis using new(4) by (simp add: seen_def)
next
  case old
  assume "seen ws x"
  then show ?thesis using old by simp
qed

lemma visit_queue:
  "x \<in> set (snd (visit cs c w g (ws, queue))) \<longleftrightarrow>
     x \<in> set queue \<or> (\<not> seen ws x \<and> seen (fst (visit cs c w g (ws, queue))) x)"
proof (cases rule: visit_cases [of cs c g ws w queue])
  case (new t)
  have "seen (ws[t := Some (w @ [g])]) x \<longleftrightarrow> seen ws x \<or> x = t"
    using new(2) by (auto simp: seen_def nth_list_update)
  moreover have "\<not> seen ws t" using new(3) by (simp add: seen_def)
  ultimately show ?thesis using new(4) by auto
next
  case old
  then show ?thesis by auto
qed

lemma visit_target:
  assumes "get cs c g = Inr (Some t)" "t < length ws"
  shows "seen (fst (visit cs c w g (ws, queue))) t"
proof (cases rule: visit_cases [of cs c g ws w queue])
  case (new t')
  then have "t' = t" using assms(1) by simp
  then show ?thesis using new(4) assms(2) by (simp add: seen_def)
next
  case old
  then show ?thesis using assms by (simp add: seen_def)
qed

lemma fold_visit_seen_mono:
  "seen ws x \<Longrightarrow> seen (fst (fold (visit cs c w) gs (ws, queue))) x"
proof (induction gs arbitrary: ws queue)
  case Nil
  then show ?case by simp
next
  case (Cons g gs)
  obtain ws1 q1 where v: "visit cs c w g (ws, queue) = (ws1, q1)"
    by (cases "visit cs c w g (ws, queue)")
  have "seen ws1 x" using visit_seen_mono [OF Cons.prems, of cs c w g queue] v by simp
  from Cons.IH [OF this] show ?case using v by simp
qed

lemma fold_visit_queue:
  "x \<in> set (snd (fold (visit cs c w) gs (ws, queue))) \<longleftrightarrow>
     x \<in> set queue \<or> (\<not> seen ws x \<and> seen (fst (fold (visit cs c w) gs (ws, queue))) x)"
proof (induction gs arbitrary: ws queue)
  case Nil
  then show ?case by auto
next
  case (Cons g gs)
  obtain ws1 q1 where v: "visit cs c w g (ws, queue) = (ws1, q1)"
    by (cases "visit cs c w g (ws, queue)")
  let ?ws' = "fst (fold (visit cs c w) gs (ws1, q1))"
  have 1: "x \<in> set q1 \<longleftrightarrow> x \<in> set queue \<or> (\<not> seen ws x \<and> seen ws1 x)"
    using visit_queue [of x cs c w g ws queue] v by simp
  have 2: "x \<in> set (snd (fold (visit cs c w) gs (ws1, q1))) \<longleftrightarrow>
             x \<in> set q1 \<or> (\<not> seen ws1 x \<and> seen ?ws' x)"
    by (rule Cons.IH)
  have 3: "seen ws x \<Longrightarrow> seen ws1 x"
    using visit_seen_mono [of ws x cs c w g queue] v by simp
  have 4: "seen ws1 x \<Longrightarrow> seen ?ws' x" by (rule fold_visit_seen_mono)
  show ?case using 1 2 3 4 v by auto
qed

lemma fold_visit_target:
  "g \<in> set gs \<Longrightarrow> get cs c g = Inr (Some t) \<Longrightarrow> t < length ws \<Longrightarrow>
     seen (fst (fold (visit cs c w) gs (ws, queue))) t"
proof (induction gs arbitrary: ws queue)
  case Nil
  then show ?case by simp
next
  case (Cons h gs)
  obtain ws1 q1 where v: "visit cs c w h (ws, queue) = (ws1, q1)"
    by (cases "visit cs c w h (ws, queue)")
  have len: "length ws1 = length ws" using visit_length [of cs c w h ws queue] v by simp
  show ?case
  proof (cases "g = h")
    case True
    have "seen ws1 t" using visit_target [OF Cons.prems(2,3), of w queue] True v by simp
    then have "seen (fst (fold (visit cs c w) gs (ws1, q1))) t" by (rule fold_visit_seen_mono)
    then show ?thesis using v by simp
  next
    case False
    then have "g \<in> set gs" using Cons.prems(1) by simp
    from Cons.IH [OF this Cons.prems(2), of ws1 q1] show ?thesis
      using Cons.prems(3) len v by simp
  qed
qed

lemma bfs_closed:
  assumes rows: "\<And>x g v. get cs x g = Inr v \<Longrightarrow> g < n_gens cs"
  shows "frontier cs ws queue \<Longrightarrow>
     (\<forall>x. seen ws x \<longrightarrow> seen (bfs cs ws queue) x) \<and> frontier cs (bfs cs ws queue) []"
  using rows
proof (induction cs ws queue rule: bfs.induct)
  case (1 cs ws)
  then show ?case by simp
next
  case (2 cs ws c queue)
  have "seen ws c" using "2.prems"(1) by (simp add: frontier_def)
  then obtain w where w: "c < length ws" "ws ! c = Some w" by (auto simp: seen_def)
  then have sel: "(if c < length ws then ws ! c else None) = Some w" by simp
  let ?ws1 = "fst (expand cs c w ws queue)" and ?q1 = "snd (expand cs c w ws queue)"
  have len: "length ?ws1 = length ws" by (simp add: expand_def fold_visit_length)
  have mono: "\<And>x. seen ws x \<Longrightarrow> seen ?ws1 x"
    unfolding expand_def by (rule fold_visit_seen_mono)
  have queue: "\<And>x. x \<in> set ?q1 \<longleftrightarrow> x \<in> set queue \<or> (\<not> seen ws x \<and> seen ?ws1 x)"
    unfolding expand_def by (rule fold_visit_queue)
  have f: "frontier cs ?ws1 ?q1"
    unfolding frontier_def
  proof (intro conjI ballI allI impI)
    fix x assume "x \<in> set ?q1"
    then show "seen ?ws1 x" using queue "2.prems"(1) mono by (auto simp: frontier_def)
  next
    fix x g t
    assume a: "seen ?ws1 x \<and> x \<notin> set ?q1 \<and> get cs x g = Inr (Some t) \<and> t < length ?ws1"
    then have x: "seen ws x" "x \<notin> set queue" using queue by auto
    have t: "t < length ws" using a len by simp
    show "seen ?ws1 t"
    proof (cases "x = c")
      case True
      have "g < n_gens cs" using a "2.prems"(2) by blast
      then have "g \<in> set [0..<n_gens cs]" by simp
      then show ?thesis
        unfolding expand_def using a True t by (intro fold_visit_target) auto
    next
      case False
      then have "x \<notin> set (c # queue)" using x(2) by simp
      then have "seen ws t" using "2.prems"(1) x(1) a t unfolding frontier_def by blast
      then show ?thesis by (rule mono)
    qed
  qed
  from "2.IH"(2) [OF sel f "2.prems"(2)]
  have "(\<forall>x. seen ?ws1 x \<longrightarrow> seen (bfs cs ?ws1 ?q1) x) \<and> frontier cs (bfs cs ?ws1 ?q1) []" .
  then show ?case using mono sel by simp
qed

lemma frontier_follow:
  assumes "frontier cs ws []" "length ws = length (cosets cs)"
  shows "seen ws x \<Longrightarrow> follow cs x w = Some y \<Longrightarrow> y < length ws \<Longrightarrow> seen ws y"
proof (induction w arbitrary: x)
  case Nil
  then show ?case by simp
next
  case (Cons g w)
  from Cons.prems(2) obtain t where t: "get cs x g = Inr (Some t)" "follow cs t w = Some y"
    by (auto split: sum.splits option.splits)
  have "t < length ws"
  proof (cases w)
    case Nil
    then show ?thesis using t(2) Cons.prems(3) by simp
  next
    case (Cons h w')
    then obtain v where "get cs t h = Inr v" using t(2) by (auto split: sum.splits)
    then show ?thesis using get_Inr_bound assms(2) by metis
  qed
  then have "seen ws t" using assms(1) Cons.prems(1) t(1) unfolding frontier_def by auto
  from Cons.IH [OF this t(2) Cons.prems(3)] show ?case .
qed

lemma words_complete:
  assumes "table_inv cs" "c < length (cosets cs)" "reachable cs c"
  shows "\<exists>w. words cs ! c = Some w"
proof -
  let ?ws0 = "(replicate (length (cosets cs)) None)[0 := Some []] :: nat list option list"
  have rows: "\<And>x g v. get cs x g = Inr v \<Longrightarrow> g < n_gens cs"
    using assms(1) by (auto simp: get_def table_inv_lengths split: if_splits)
  have pos: "0 < length (cosets cs)" using assms(2) by (cases "cosets cs") auto
  have s0: "\<And>x. seen ?ws0 x \<longleftrightarrow> x = 0"
    using pos by (auto simp: seen_def nth_list_update)
  have "frontier cs ?ws0 [0]" unfolding frontier_def using s0 by simp
  from bfs_closed [OF rows this]
  have m: "seen (words cs) 0" and f: "frontier cs (words cs) []"
    using s0 by (simp_all add: words_def)
  obtain w where "follow cs 0 w = Some c" using assms(3) unfolding reachable_def by blast
  from frontier_follow [OF f words_length m this] assms(2)
  have "seen (words cs) c" by (simp add: words_length)
  then show ?thesis by (auto simp: seen_def)
qed

text \<open>
  C8, as amended. The words of a table have one slot per coset. Replaying the word of a
  coset from coset 0 by forward lookups lands on that coset. A coset has a word exactly
  when it can be reached from coset 0 along defined forward entries: on a well-formed
  table every reachable coset has one, and so has every coset of a table that \<open>solve\<close>
  returns from a run without forward overwriting.
\<close>

theorem words_replay:
  "length (words cs) = length (cosets cs)
   \<and> (c < length (cosets cs) \<and> words cs ! c = Some w \<longrightarrow> follow cs 0 w = Some c)
   \<and> (table_inv cs \<and> c < length (cosets cs) \<and> reachable cs c \<longrightarrow>
        (\<exists>w. words cs ! c = Some w))
   \<and> (solve_start gens subgens rels = Inr start \<and> forward_safe n start \<and>
        (step ^^ n) start = Returned cs \<and> c < length (cosets cs) \<longrightarrow>
        (\<exists>w. words cs ! c = Some w \<and> follow cs 0 w = Some c))"
proof (intro conjI impI)
  show "length (words cs) = length (cosets cs)" by (rule words_length)
next
  assume "c < length (cosets cs) \<and> words cs ! c = Some w"
  then show "follow cs 0 w = Some c" using words_sound by blast
next
  assume "table_inv cs \<and> c < length (cosets cs) \<and> reachable cs c"
  then show "\<exists>w. words cs ! c = Some w" using words_complete by blast
next
  assume a: "solve_start gens subgens rels = Inr start \<and> forward_safe n start \<and>
        (step ^^ n) start = Returned cs \<and> c < length (cosets cs)"
  then have s: "solve_start gens subgens rels = Inr start" and r: "(step ^^ n) start = Returned cs"
    by simp_all
  have "config_inv ((step ^^ n) start)"
    using solve_start_inv [OF s] by (rule config_inv_funpow)
  then have t: "table_inv cs" using r by simp
  have "case table_of ((step ^^ n) start) of Some cs' \<Rightarrow> all_reachable cs' | None \<Rightarrow> True"
    using a solve_start_table [OF s] all_reachable_Cosets_init
    by (intro all_reachable_run) auto
  then have "reachable cs c" using r a by (simp add: all_reachable_def)
  then obtain v where v: "words cs ! c = Some v" using words_complete t a by blast
  then have "follow cs 0 v = Some c" using words_sound a by blast
  then show "\<exists>w. words cs ! c = Some w \<and> follow cs 0 w = Some c" using v by blast
qed

text \<open>
  The table of the dihedral example: its last coset has the word \<open>baba\<close>, which leads from
  coset 0 to coset 4.
\<close>

theorem words_replay_witness:
  "length (words \<lparr>names = [''a'', ''b''], n_gens = 2,
                    cosets = [[Some 0, Some 1], [Some 2, Some 0], [Some 1, Some 3],
                              [Some 4, Some 2], [Some 3, Some 4]],
                    rcosets = [[Some 0, Some 1], [Some 2, Some 0], [Some 1, Some 3],
                               [Some 4, Some 2], [Some 3, Some 4]]\<rparr>)
     = length (cosets \<lparr>names = [''a'', ''b''], n_gens = 2,
                    cosets = [[Some 0, Some 1], [Some 2, Some 0], [Some 1, Some 3],
                              [Some 4, Some 2], [Some 3, Some 4]],
                    rcosets = [[Some 0, Some 1], [Some 2, Some 0], [Some 1, Some 3],
                               [Some 4, Some 2], [Some 3, Some 4]]\<rparr>)
   \<and> words \<lparr>names = [''a'', ''b''], n_gens = 2,
                    cosets = [[Some 0, Some 1], [Some 2, Some 0], [Some 1, Some 3],
                              [Some 4, Some 2], [Some 3, Some 4]],
                    rcosets = [[Some 0, Some 1], [Some 2, Some 0], [Some 1, Some 3],
                               [Some 4, Some 2], [Some 3, Some 4]]\<rparr> ! 4
       = Some [1, 0, 1, 0]
   \<and> follow \<lparr>names = [''a'', ''b''], n_gens = 2,
                    cosets = [[Some 0, Some 1], [Some 2, Some 0], [Some 1, Some 3],
                              [Some 4, Some 2], [Some 3, Some 4]],
                    rcosets = [[Some 0, Some 1], [Some 2, Some 0], [Some 1, Some 3],
                               [Some 4, Some 2], [Some 3, Some 4]]\<rparr>
         0 [1, 0, 1, 0] = Some 4
   \<and> table_inv \<lparr>names = [''a'', ''b''], n_gens = 2,
                    cosets = [[Some 0, Some 1], [Some 2, Some 0], [Some 1, Some 3],
                              [Some 4, Some 2], [Some 3, Some 4]],
                    rcosets = [[Some 0, Some 1], [Some 2, Some 0], [Some 1, Some 3],
                               [Some 4, Some 2], [Some 3, Some 4]]\<rparr>
   \<and> reachable \<lparr>names = [''a'', ''b''], n_gens = 2,
                    cosets = [[Some 0, Some 1], [Some 2, Some 0], [Some 1, Some 3],
                              [Some 4, Some 2], [Some 3, Some 4]],
                    rcosets = [[Some 0, Some 1], [Some 2, Some 0], [Some 1, Some 3],
                               [Some 4, Some 2], [Some 3, Some 4]]\<rparr> 4
   \<and> solve_start [''a'', ''b''] [''a''] (map chars [''ababababab'', ''aa'', ''bb''])
       = Inr (Subgens [[0, 1, 0, 1, 0, 1, 0, 1, 0, 1], [0, 0], [1, 1]]
            (map (\<lambda>w. Row_init w 0) [[0, 1, 0, 1, 0, 1, 0, 1, 0, 1], [0, 0], [1, 1]])
            (Cosets_init 2 [''a'', ''b'']) [0])
   \<and> forward_safe 70
         (Subgens [[0, 1, 0, 1, 0, 1, 0, 1, 0, 1], [0, 0], [1, 1]]
            (map (\<lambda>w. Row_init w 0) [[0, 1, 0, 1, 0, 1, 0, 1, 0, 1], [0, 0], [1, 1]])
            (Cosets_init 2 [''a'', ''b'']) [0])
   \<and> (step ^^ 70)
         (Subgens [[0, 1, 0, 1, 0, 1, 0, 1, 0, 1], [0, 0], [1, 1]]
            (map (\<lambda>w. Row_init w 0) [[0, 1, 0, 1, 0, 1, 0, 1, 0, 1], [0, 0], [1, 1]])
            (Cosets_init 2 [''a'', ''b'']) [0])
       = Returned \<lparr>names = [''a'', ''b''], n_gens = 2,
                    cosets = [[Some 0, Some 1], [Some 2, Some 0], [Some 1, Some 3],
                              [Some 4, Some 2], [Some 3, Some 4]],
                    rcosets = [[Some 0, Some 1], [Some 2, Some 0], [Some 1, Some 3],
                               [Some 4, Some 2], [Some 3, Some 4]]\<rparr>
   \<and> (\<exists>w. words \<lparr>names = [''a'', ''b''], n_gens = 2,
                    cosets = [[Some 0, Some 1], [Some 2, Some 0], [Some 1, Some 3],
                              [Some 4, Some 2], [Some 3, Some 4]],
                    rcosets = [[Some 0, Some 1], [Some 2, Some 0], [Some 1, Some 3],
                               [Some 4, Some 2], [Some 3, Some 4]]\<rparr> ! 4 = Some w
          \<and> follow \<lparr>names = [''a'', ''b''], n_gens = 2,
                    cosets = [[Some 0, Some 1], [Some 2, Some 0], [Some 1, Some 3],
                              [Some 4, Some 2], [Some 3, Some 4]],
                    rcosets = [[Some 0, Some 1], [Some 2, Some 0], [Some 1, Some 3],
                               [Some 4, Some 2], [Some 3, Some 4]]\<rparr>
               0 w = Some 4)"
proof -
  let ?start = "(Subgens [[0, 1, 0, 1, 0, 1, 0, 1, 0, 1], [0, 0], [1, 1]]
            (map (\<lambda>w. Row_init w 0) [[0, 1, 0, 1, 0, 1, 0, 1, 0, 1], [0, 0], [1, 1]])
            (Cosets_init 2 [''a'', ''b'']) [0]) :: string config"
  let ?tab = "\<lparr>names = [''a'', ''b''], n_gens = 2,
                    cosets = [[Some 0, Some 1], [Some 2, Some 0], [Some 1, Some 3],
                              [Some 4, Some 2], [Some 3, Some 4]],
                    rcosets = [[Some 0, Some 1], [Some 2, Some 0], [Some 1, Some 3],
                               [Some 4, Some 2], [Some 3, Some 4]]\<rparr> :: string Cosets"
  have l: "(4 :: nat) < length (cosets ?tab)" by simp
  have w: "words ?tab ! 4 = Some [1, 0, 1, 0]" by code_simp
  have t: "table_inv ?tab" by code_simp
  have s: "solve_start [''a'', ''b''] [''a''] (map chars [''ababababab'', ''aa'', ''bb''])
             = Inr ?start"
    by code_simp
  have f: "forward_safe 70 ?start" by code_simp
  have r: "(step ^^ 70) ?start = Returned ?tab" by code_simp
  note th = words_replay [where cs = ?tab and c = 4 and w = "[1, 0, 1, 0]" and start = ?start
                            and n = 70 and gens = "[''a'', ''b'']" and subgens = "[''a'']"
                            and rels = "map chars [''ababababab'', ''aa'', ''bb'']"]
  have 1: "length (words ?tab) = length (cosets ?tab)" using th by blast
  have 2: "follow ?tab 0 [1, 0, 1, 0] = Some 4" using th l w by blast
  then have 3: "reachable ?tab 4" unfolding reachable_def by blast
  have 4: "\<exists>w. words ?tab ! 4 = Some w \<and> follow ?tab 0 w = Some 4" using th l s f r by blast
  show ?thesis using 1 w 2 t 3 s f r 4 by blast
qed

text \<open>
  The table that \<open>solve\<close> returns for the relators \<open>aa\<close> and \<open>aaa\<close>: no forward entry leads
  to coset 1, which has no word.
\<close>

theorem words_missing_for_coset:
  "solve [''a''] [] [[''a'', ''a''], [''a'', ''a'', ''a'']] =
     Some (Inr \<lparr>names = [''a''], n_gens = 1, cosets = [[Some 0], [Some 0]],
                 rcosets = [[Some 0], [Some 0]]\<rparr>)
   \<and> words \<lparr>names = [''a''], n_gens = 1, cosets = [[Some 0], [Some 0]],
               rcosets = [[Some 0], [Some 0]]\<rparr> = [Some [], None]"
  by code_simp

end
